theory Spec2Isabelle
  imports Main "HOL-Library.Word" "HOL-Library.Multiset" "HOL-Library.AList"
begin

section \<open>The object store the resolver reads\<close>

text \<open>
  The resolver of \<^verbatim>\<open>getLastCommitForPaths\<close> works on three things it does not
  define itself: commit nodes of go-git's commit graph, tree objects of go-git, and the
  binary heap of the gods library. Commit nodes and trees are modelled as handles into
  a repository value \<open>r\<close> whose fields are the library calls the code makes, each
  fallible call returning \<open>error + 'a\<close> with \<open>Inl\<close> for the error.
  A \<^verbatim>\<open>plumbing.Hash\<close> is an array of 20 bytes; its zero value is the word 0.
\<close>

type_synonym hash = "160 word"
type_synonym CommitNode = nat
type_synonym tree = nat

datatype error = ErrDirectoryNotFound | ErrEntryNotFound | ErrStore

record object_Commit =
  Hash :: hash
  Message :: string

record repo =
  CommitTime :: "CommitNode \<Rightarrow> int"
  NumParents :: "CommitNode \<Rightarrow> nat"
  ParentNode :: "CommitNode \<Rightarrow> nat \<Rightarrow> error + CommitNode"
  Tree :: "CommitNode \<Rightarrow> error + tree"
  Commit :: "CommitNode \<Rightarrow> error + object_Commit"
  tree_Hash :: "tree \<Rightarrow> hash"
  tree_Tree :: "tree \<Rightarrow> string \<Rightarrow> error + tree"
  FindEntry :: "tree \<Rightarrow> string \<Rightarrow> error + hash"

text \<open>
  \<open>NumParents\<close> is a count, hence a natural number. \<open>ParentNode r c i\<close> is the call
  \<^verbatim>\<open>c.ParentNode(i)\<close>, \<open>Tree r c\<close> is \<^verbatim>\<open>c.Tree()\<close>, \<open>Commit r c\<close> is \<^verbatim>\<open>c.Commit()\<close>,
  \<open>tree_Tree r t p\<close> is \<^verbatim>\<open>t.Tree(p)\<close> and \<open>tree_Hash r t\<close> is the field \<^verbatim>\<open>t.Hash\<close>.
  \<open>FindEntry r t p\<close> is the \<^verbatim>\<open>Hash\<close> field of the entry that
  \<^verbatim>\<open>t.FindEntry(p)\<close> returns, the only field the code reads.
  Reading a Go map at a key it does not hold (also a nil map) gives the zero value.
\<close>

definition mapIndex :: "(string \<rightharpoonup> hash) \<Rightarrow> string \<Rightarrow> hash" where
  "mapIndex m path = (case m path of None \<Rightarrow> 0 | Some h \<Rightarrow> h)"

section \<open>Tree descent and hash tracking\<close>

definition getCommitTree :: "repo \<Rightarrow> CommitNode \<Rightarrow> string \<Rightarrow> error + tree" where
  "getCommitTree r c treePath =
     (case Tree r c of
        Inl err \<Rightarrow> Inl err
      | Inr t \<Rightarrow>
          if treePath \<noteq> [] then
            (case tree_Tree r t treePath of
               Inl err \<Rightarrow> Inl err
             | Inr t' \<Rightarrow> Inr t')
          else Inr t)"

fun fileHashesLoop :: "repo \<Rightarrow> tree \<Rightarrow> string list \<Rightarrow> (string \<rightharpoonup> hash) \<Rightarrow> (string \<rightharpoonup> hash)" where
  "fileHashesLoop r t [] hs = hs"
| "fileHashesLoop r t (path # rest) hs =
     (if path \<noteq> [] then
        (case FindEntry r t path of
           Inr entryHash \<Rightarrow> fileHashesLoop r t rest (hs(path \<mapsto> entryHash))
         | Inl err \<Rightarrow> fileHashesLoop r t rest hs)
      else fileHashesLoop r t rest (hs(path \<mapsto> tree_Hash r t)))"

definition getFileHashes :: "repo \<Rightarrow> CommitNode \<Rightarrow> string \<Rightarrow> string list \<Rightarrow> error + (string \<rightharpoonup> hash)" where
  "getFileHashes r c treePath ps =
     (case getCommitTree r c treePath of
        Inl err \<Rightarrow> if err = ErrDirectoryNotFound then Inr Map.empty else Inl err
      | Inr t \<Rightarrow> Inr (fileHashesLoop r t ps Map.empty))"

section \<open>The frontier\<close>

record commitAndPaths =
  commit :: CommitNode
  paths :: "string list"
  hashes :: "string \<rightharpoonup> hash"

text \<open>
  The heap is the gods library's \<^verbatim>\<open>binaryheap\<close>, built with the comparator below.
  The library is not part of the repository, so the heap is modelled by its live
  entries (in push order) and by a parameter \<open>sel\<close>: \<open>sel k h\<close> is the position of the
  entry that the \<open>k\<close>-th \<^verbatim>\<open>Pop\<close> returns when the live entries are \<open>h\<close>. Every theorem
  about the traversal holds for every \<open>sel\<close>, so for whichever entry the library's
  comparator order and tie-breaking choose. \<open>popLatest\<close> is the choice the comparator
  describes (an entry that no other entry has to precede, the first such one).
\<close>

type_synonym heap = "commitAndPaths list"
type_synonym selector = "nat \<Rightarrow> heap \<Rightarrow> nat"

definition comparator :: "repo \<Rightarrow> commitAndPaths \<Rightarrow> commitAndPaths \<Rightarrow> int" where
  "comparator r a b = (if CommitTime r (commit a) < CommitTime r (commit b) then 1 else - 1)"

definition popLatest :: "repo \<Rightarrow> selector" where
  "popLatest r k h = length (takeWhile (\<lambda>a. \<exists>b \<in> set h. comparator r a b > 0) h)"

definition heapPush :: "heap \<Rightarrow> commitAndPaths \<Rightarrow> heap" where
  "heapPush h e = h @ [e]"

definition heapPop :: "selector \<Rightarrow> nat \<Rightarrow> heap \<Rightarrow> (commitAndPaths \<times> heap) option" where
  "heapPop sel k h =
     (if h = [] then None
      else let i = min (sel k h) (length h - 1)
           in Some (h ! i, take i h @ drop (Suc i) h))"

section \<open>One iteration of the traversal loop\<close>

text \<open>Loading the parents stops, without an error, at the first parent that fails to load.\<close>

fun loadParents :: "repo \<Rightarrow> CommitNode \<Rightarrow> nat list \<Rightarrow> CommitNode list" where
  "loadParents r c [] = []"
| "loadParents r c (i # rest) =
     (case ParentNode r c i of
        Inl err \<Rightarrow> []
      | Inr parent \<Rightarrow> parent # loadParents r c rest)"

text \<open>
  \<open>parentHashes\<close> starts as a slice of nil maps, one per loaded parent. The loop fills
  it parent by parent and leaves it at the first \<^verbatim>\<open>getFileHashes\<close> that fails: that
  parent's map and the later ones stay nil, and \<open>pathUnchanged\<close> stays as it is.
\<close>

fun examineParents ::
  "repo \<Rightarrow> string \<Rightarrow> commitAndPaths \<Rightarrow> CommitNode list \<Rightarrow> bool list
     \<Rightarrow> (string \<rightharpoonup> hash) list \<times> bool list" where
  "examineParents r treePath current [] pathUnchanged = ([], pathUnchanged)"
| "examineParents r treePath current (parent # rest) pathUnchanged =
     (case getFileHashes r parent treePath (paths current) of
        Inl err \<Rightarrow> (replicate (Suc (length rest)) Map.empty, pathUnchanged)
      | Inr hs \<Rightarrow>
          (case examineParents r treePath current rest
                  (map (\<lambda>(path, u). u \<or> mapIndex hs path = mapIndex (hashes current) path)
                       (zip (paths current) pathUnchanged)) of
             (parentHashes, pathUnchanged') \<Rightarrow> (hs # parentHashes, pathUnchanged')))"

text \<open>
  The loop that records results. The Go map \<open>resultNodes\<close> is an association list
  (keys in the order of their first assignment), read with \<open>map_of\<close> and assigned
  with \<open>AList.update\<close>; the commit nodes stored in it are never nil, so
  \<^verbatim>\<open>resultNodes[path] == nil\<close> is the key being absent.
\<close>

fun recordPaths ::
  "CommitNode \<Rightarrow> (string \<times> bool) list \<Rightarrow> (string \<times> CommitNode) list \<Rightarrow> string list
     \<Rightarrow> (string \<times> CommitNode) list \<times> string list" where
  "recordPaths c [] resultNodes remainingPaths = (resultNodes, remainingPaths)"
| "recordPaths c ((path, unchanged) # rest) resultNodes remainingPaths =
     (if map_of resultNodes path = None then
        (if unchanged then recordPaths c rest resultNodes (remainingPaths @ [path])
         else recordPaths c rest (AList.update path c resultNodes) remainingPaths)
      else recordPaths c rest resultNodes remainingPaths)"

text \<open>
  The push loop over the parents. \<open>remainingPathsForParent\<close> comes from \<^verbatim>\<open>make\<close>, so
  it is never nil and the test before the push always succeeds: an entry is pushed
  for every parent the loop reaches.
\<close>

fun pushParents ::
  "(string \<rightharpoonup> hash) \<Rightarrow> (CommitNode \<times> (string \<rightharpoonup> hash)) list \<Rightarrow> string list
     \<Rightarrow> commitAndPaths list" where
  "pushParents currentHashes [] remainingPaths = []"
| "pushParents currentHashes ((parent, parentHashes) # rest) remainingPaths =
     (let remainingPathsForParent =
            filter (\<lambda>path. mapIndex parentHashes path = mapIndex currentHashes path) remainingPaths;
          newRemainingPaths =
            filter (\<lambda>path. mapIndex parentHashes path \<noteq> mapIndex currentHashes path) remainingPaths
      in \<lparr>commit = parent, paths = remainingPathsForParent, hashes = parentHashes\<rparr>
         # (if newRemainingPaths = [] then []
            else pushParents currentHashes rest newRemainingPaths))"

definition iteration ::
  "repo \<Rightarrow> string \<Rightarrow> commitAndPaths \<Rightarrow> (string \<times> CommitNode) list
     \<Rightarrow> (string \<times> CommitNode) list \<times> commitAndPaths list" where
  "iteration r treePath current resultNodes =
     (let parents = loadParents r (commit current) [0 ..< NumParents r (commit current)]
      in case examineParents r treePath current parents
                (replicate (length (paths current)) False) of
           (parentHashes, pathUnchanged) \<Rightarrow>
             (case recordPaths (commit current) (zip (paths current) pathUnchanged)
                     resultNodes [] of
                (resultNodes', remainingPaths) \<Rightarrow>
                  (resultNodes',
                   if remainingPaths \<noteq> []
                   then pushParents (hashes current) (zip parents parentHashes) remainingPaths
                   else [])))"

section \<open>The traversal and the resolver\<close>

text \<open>
  The loop \<^verbatim>\<open>for { pop; if !ok break; ... }\<close>. The pushes of an iteration come after
  its pop, with no pop between them. \<open>k\<close> counts the pops made so far and is only
  handed to \<open>sel\<close>. The loop has no bound of its own, so the function is partial: its
  value is \<open>None\<close> when the loop does not end.
\<close>

partial_function (option) traverse ::
  "repo \<Rightarrow> string \<Rightarrow> selector \<Rightarrow> nat \<Rightarrow> heap \<Rightarrow> (string \<times> CommitNode) list
     \<Rightarrow> (string \<times> CommitNode) list option" where
  "traverse r treePath sel k h resultNodes =
     (case heapPop sel k h of
        None \<Rightarrow> Some resultNodes
      | Some (current, h') \<Rightarrow>
          (case iteration r treePath current resultNodes of
             (resultNodes', pushed) \<Rightarrow>
               traverse r treePath sel (Suc k) (foldl heapPush h' pushed) resultNodes'))"

text \<open>
  Post-processing ranges over \<open>resultNodes\<close> and stops at the first commit object that
  does not load. Go leaves the order of the range unspecified; the model takes the
  order of the association list, which decides only which error is returned when
  several commit objects fail to load.
\<close>

fun postProcess ::
  "repo \<Rightarrow> (string \<times> CommitNode) list \<Rightarrow> (string \<rightharpoonup> object_Commit)
     \<Rightarrow> error + (string \<rightharpoonup> object_Commit)" where
  "postProcess r [] result = Inr result"
| "postProcess r ((path, commitNode) # rest) result =
     (case Commit r commitNode of
        Inl err \<Rightarrow> Inl err
      | Inr cm \<Rightarrow> postProcess r rest (result(path \<mapsto> cm)))"

definition getLastCommitForPaths ::
  "repo \<Rightarrow> selector \<Rightarrow> CommitNode \<Rightarrow> string \<Rightarrow> string list
     \<Rightarrow> (error + (string \<rightharpoonup> object_Commit)) option" where
  "getLastCommitForPaths r sel c treePath ps =
     (case getFileHashes r c treePath ps of
        Inl err \<Rightarrow> Some (Inl err)
      | Inr initialHashes \<Rightarrow>
          (case traverse r treePath sel 0
                  (heapPush [] \<lparr>commit = c, paths = ps, hashes = initialHashes\<rparr>) [] of
             None \<Rightarrow> None
           | Some resultNodes \<Rightarrow> Some (postProcess r resultNodes Map.empty)))"

section \<open>Notions used to state the properties\<close>

text \<open>
  The parent edges of the commit graph: \<open>(d, c)\<close> is an edge when \<open>d\<close> is a parent that
  \<open>c\<close> announces and that loads. A commit is an ancestor of \<open>c\<close>, or \<open>c\<close> itself,
  when it is related to \<open>c\<close> by the reflexive transitive closure of the edges.
\<close>

definition parentEdges :: "repo \<Rightarrow> (CommitNode \<times> CommitNode) set" where
  "parentEdges r = {(d, c). \<exists>i < NumParents r c. ParentNode r c i = Inr d}"

text \<open>
  What one iteration sees of a parent: whether its hashes could be fetched, the map it
  gets when they could (the nil map otherwise), and the parents examined before the
  first failing fetch.
\<close>

definition fetchOk :: "repo \<Rightarrow> string \<Rightarrow> CommitNode \<Rightarrow> bool" where
  "fetchOk r treePath d = (case getFileHashes r d treePath [] of Inl err \<Rightarrow> False | Inr hs \<Rightarrow> True)"

definition fetched :: "repo \<Rightarrow> string \<Rightarrow> string list \<Rightarrow> CommitNode \<Rightarrow> (string \<rightharpoonup> hash)" where
  "fetched r treePath ps d = (case getFileHashes r d treePath ps of Inl err \<Rightarrow> Map.empty | Inr hs \<Rightarrow> hs)"

definition hashAt :: "repo \<Rightarrow> string \<Rightarrow> CommitNode \<Rightarrow> string \<Rightarrow> hash" where
  "hashAt r treePath d path = mapIndex (fetched r treePath [path] d) path"

definition examined :: "repo \<Rightarrow> string \<Rightarrow> CommitNode \<Rightarrow> CommitNode list" where
  "examined r treePath c =
     takeWhile (fetchOk r treePath) (loadParents r c [0 ..< NumParents r c])"

text \<open>
  The first parent, in parent order, whose hash for the path equals the hash \<open>h\<close>,
  and the branch the traversal follows for a path: from a commit to the first parent
  whose hash for the path equals the commit's, repeatedly.
\<close>

definition firstMatch :: "repo \<Rightarrow> string \<Rightarrow> string \<Rightarrow> CommitNode \<Rightarrow> hash \<Rightarrow> CommitNode option" where
  "firstMatch r treePath path c h =
     find (\<lambda>d. hashAt r treePath d path = h) (examined r treePath c)"

inductive branch :: "repo \<Rightarrow> string \<Rightarrow> string \<Rightarrow> CommitNode \<Rightarrow> CommitNode \<Rightarrow> bool"
  for r :: repo and treePath :: string and path :: string where
  branch_refl: "branch r treePath path c c"
| branch_step:
    "firstMatch r treePath path c (hashAt r treePath c path) = Some d
     \<Longrightarrow> branch r treePath path d e \<Longrightarrow> branch r treePath path c e"

section \<open>Example repositories\<close>

text \<open>
  Two root commits 1 and 2 and their merge 3 (parents 1, 2 in this order). The tree of
  a commit has the commit's number. The file \<open>a\<close> has hash 5 at commit 1 and hash 7 at
  commits 2 and 3; \<open>k\<close> has hash 4 everywhere; \<open>m\<close> has hash 9 at the merge, 5 at
  commit 1 and 7 at commit 2; no other name exists.
\<close>

definition mergeRepo :: repo where
  "mergeRepo =
     \<lparr>CommitTime = (\<lambda>c. int c),
      NumParents = (\<lambda>c. if c = 3 then 2 else 0),
      ParentNode = (\<lambda>c i. if c = 3 \<and> i = 0 then Inr 1
                           else if c = 3 \<and> i = 1 then Inr 2 else Inl ErrStore),
      Tree = (\<lambda>c. Inr c),
      Commit = (\<lambda>c. Inr \<lparr>Hash = of_nat c, Message = []\<rparr>),
      tree_Hash = (\<lambda>t. of_nat t + 100),
      tree_Tree = (\<lambda>t p. Inl ErrDirectoryNotFound),
      FindEntry = (\<lambda>t p. if p = ''a'' then (if t = 1 then Inr 5 else Inr 7)
                          else if p = ''k'' then Inr 4
                          else if p = ''m'' then (if t = 3 then Inr 9 else if t = 1 then Inr 5 else Inr 7)
                          else Inl ErrEntryNotFound)\<rparr>"

text \<open>
  A store that fails. Commit 2 announces one parent, which does not load. Commit 4 has
  the parent 5, whose tree cannot be read. Commit 6 is a root whose commit object
  cannot be loaded. The file \<open>a\<close> has hash 7 in every tree that can be read.
\<close>

definition brokenRepo :: repo where
  "brokenRepo =
     \<lparr>CommitTime = (\<lambda>c. int c),
      NumParents = (\<lambda>c. if c = 2 \<or> c = 4 then 1 else 0),
      ParentNode = (\<lambda>c i. if c = 4 \<and> i = 0 then Inr 5 else Inl ErrStore),
      Tree = (\<lambda>c. if c = 5 then Inl ErrStore else Inr c),
      Commit = (\<lambda>c. if c = 6 then Inl ErrStore else Inr \<lparr>Hash = of_nat c, Message = []\<rparr>),
      tree_Hash = (\<lambda>t. of_nat t + 100),
      tree_Tree = (\<lambda>t p. Inl ErrDirectoryNotFound),
      FindEntry = (\<lambda>t p. if p = ''a'' then Inr 7 else Inl ErrEntryNotFound)\<rparr>"

text \<open>
  A shallow history: commit 2 announces one parent, which is not in the store and
  does not load. Every tree and every commit object can be read; the file \<open>a\<close> has
  hash 7 everywhere.
\<close>

definition shallowRepo :: repo where
  "shallowRepo =
     \<lparr>CommitTime = (\<lambda>c. int c),
      NumParents = (\<lambda>c. if c = 2 then 1 else 0),
      ParentNode = (\<lambda>c i. Inl ErrStore),
      Tree = (\<lambda>c. Inr c),
      Commit = (\<lambda>c. Inr \<lparr>Hash = of_nat c, Message = []\<rparr>),
      tree_Hash = (\<lambda>t. of_nat t + 100),
      tree_Tree = (\<lambda>t p. Inl ErrDirectoryNotFound),
      FindEntry = (\<lambda>t p. if p = ''a'' then Inr 7 else Inl ErrEntryNotFound)\<rparr>"


text \<open>
  A commit with a subdirectory: the root tree of commit 1 is tree 10, its directory
  \<open>src\<close> is tree 11 with hash 42, and no other directory exists. Tree 11 holds the
  file \<open>main.go\<close> with hash 8; tree 10 holds the entry \<open>src\<close> with hash 42.
\<close>

definition subtreeRepo :: repo where
  "subtreeRepo =
     \<lparr>CommitTime = (\<lambda>c. int c),
      NumParents = (\<lambda>c. 0),
      ParentNode = (\<lambda>c i. Inl ErrStore),
      Tree = (\<lambda>c. if c = 1 then Inr 10 else Inl ErrStore),
      Commit = (\<lambda>c. Inr \<lparr>Hash = of_nat c, Message = []\<rparr>),
      tree_Hash = (\<lambda>t. if t = 11 then 42 else 41),
      tree_Tree = (\<lambda>t p. if t = 10 \<and> p = ''src'' then Inr 11 else Inl ErrDirectoryNotFound),
      FindEntry = (\<lambda>t p. if t = 11 \<and> p = ''main.go'' then Inr 8
                          else if t = 10 \<and> p = ''src'' then Inr 42
                          else Inl ErrEntryNotFound)\<rparr>"

section \<open>Hash tracking\<close>

lemma fileHashesLoop_apply:
  "fileHashesLoop r t ps hs p =
     (if p \<in> set ps then
        (if p = [] then Some (tree_Hash r t)
         else (case FindEntry r t p of Inl err \<Rightarrow> hs p | Inr h \<Rightarrow> Some h))
      else hs p)"
  by (induction ps arbitrary: hs) (auto split: sum.splits)

text \<open>
  C9. Let \<open>root\<close> be the tree of the commit, and let \<open>t\<close> be the subtree: \<open>root\<close> itself
  when the subtree path is empty, the tree that \<^verbatim>\<open>root.Tree(treePath)\<close> returns
  otherwise. Then \<open>getFileHashes\<close> returns a mapping, without error, whose keys are
  requested paths; the empty path is mapped to the hash of the subtree itself, a
  requested path that \<open>FindEntry\<close> finds in the subtree is mapped to the hash of its
  entry, and a requested path that \<open>FindEntry\<close> does not find is left out. When the
  subtree path does not exist under the commit (\<^verbatim>\<open>root.Tree(treePath)\<close> fails with
  \<open>ErrDirectoryNotFound\<close>), the result is the empty mapping, without error.
\<close>

theorem getFileHashes_contract:
  "(Tree r c = Inr root \<and>
    (treePath = [] \<and> t = root \<or> treePath \<noteq> [] \<and> tree_Tree r root treePath = Inr t)
      \<longrightarrow> (\<exists>m. getFileHashes r c treePath ps = Inr m \<and> dom m \<subseteq> set ps \<and>
           (\<forall>p \<in> set ps.
              (p = [] \<longrightarrow> m p = Some (tree_Hash r t)) \<and>
              (\<forall>h. p \<noteq> [] \<longrightarrow> FindEntry r t p = Inr h \<longrightarrow> m p = Some h) \<and>
              (\<forall>err. p \<noteq> [] \<longrightarrow> FindEntry r t p = Inl err \<longrightarrow> m p = None)))) \<and>
   (Tree r c = Inr root \<and> treePath \<noteq> [] \<and>
    tree_Tree r root treePath = Inl ErrDirectoryNotFound
      \<longrightarrow> getFileHashes r c treePath ps = Inr Map.empty)"
  by (auto simp: getFileHashes_def getCommitTree_def fileHashesLoop_apply
           split: if_splits sum.splits)

theorem getFileHashes_contract_witness:
  "Tree subtreeRepo 1 = Inr 10 \<and> tree_Tree subtreeRepo 10 ''src'' = Inr 11 \<and>
   (\<exists>m. getFileHashes subtreeRepo 1 ''src'' [''main.go'', ''zz'', []] = Inr m \<and>
        m ''main.go'' = Some 8 \<and> m ''zz'' = None \<and> m [] = Some 42) \<and>
   (\<exists>m. getFileHashes subtreeRepo 1 [] [''src'', ''main.go'', []] = Inr m \<and>
        m ''src'' = Some 42 \<and> m ''main.go'' = None \<and> m [] = Some 41) \<and>
   tree_Tree subtreeRepo 10 ''gone'' = Inl ErrDirectoryNotFound \<and>
   getFileHashes subtreeRepo 1 ''gone'' [''main.go''] = Inr Map.empty"
proof -
  have t: "Tree subtreeRepo 1 = Inr 10" "tree_Tree subtreeRepo 10 ''src'' = Inr 11"
    "tree_Tree subtreeRepo 10 ''gone'' = Inl ErrDirectoryNotFound"
    by (simp_all add: subtreeRepo_def)
  from t getFileHashes_contract [of subtreeRepo 1 10 "''src''" 11 "[''main.go'', ''zz'', []]"]
  obtain m where m: "getFileHashes subtreeRepo 1 ''src'' [''main.go'', ''zz'', []] = Inr m"
    and all: "\<forall>p \<in> set [''main.go'', ''zz'', []].
       (p = [] \<longrightarrow> m p = Some (tree_Hash subtreeRepo 11)) \<and>
       (\<forall>h. p \<noteq> [] \<longrightarrow> FindEntry subtreeRepo 11 p = Inr h \<longrightarrow> m p = Some h) \<and>
       (\<forall>err. p \<noteq> [] \<longrightarrow> FindEntry subtreeRepo 11 p = Inl err \<longrightarrow> m p = None)"
    by auto
  from all have a: "m ''main.go'' = Some 8" "m ''zz'' = None" "m [] = Some 42"
    by (simp_all add: subtreeRepo_def)
  from t getFileHashes_contract [of subtreeRepo 1 10 "[]" 10 "[''src'', ''main.go'', []]"]
  obtain m' where m': "getFileHashes subtreeRepo 1 [] [''src'', ''main.go'', []] = Inr m'"
    and all': "\<forall>p \<in> set [''src'', ''main.go'', []].
       (p = [] \<longrightarrow> m' p = Some (tree_Hash subtreeRepo 10)) \<and>
       (\<forall>h. p \<noteq> [] \<longrightarrow> FindEntry subtreeRepo 10 p = Inr h \<longrightarrow> m' p = Some h) \<and>
       (\<forall>err. p \<noteq> [] \<longrightarrow> FindEntry subtreeRepo 10 p = Inl err \<longrightarrow> m' p = None)"
    by auto
  from all' have b: "m' ''src'' = Some 42" "m' ''main.go'' = None" "m' [] = Some 41"
    by (simp_all add: subtreeRepo_def)
  from t getFileHashes_contract [of subtreeRepo 1 10 "''gone''" 0 "[''main.go'']"]
  have g: "getFileHashes subtreeRepo 1 ''gone'' [''main.go''] = Inr Map.empty"
    by auto
  from t m a m' b g show ?thesis by blast
qed

section \<open>Facts about one iteration\<close>

lemma foldl_heapPush: "foldl heapPush h es = h @ es"
  by (induction es arbitrary: h) (simp_all add: heapPush_def)

lemma zip_with_map: "zip xs (map f xs) = map (\<lambda>x. (x, f x)) xs"
  by (induction xs) simp_all

lemma find_append_list:
  "find P (xs @ ys) = (case find P xs of None \<Rightarrow> find P ys | Some x \<Rightarrow> Some x)"
  by (induction xs) simp_all

lemma find_map_list: "find P (map f xs) = map_option f (find (P \<circ> f) xs)"
  by (induction xs) simp_all

lemma getFileHashes_ok: "(\<exists>m. getFileHashes r d tp ps = Inr m) = fetchOk r tp d"
  by (auto simp: getFileHashes_def fetchOk_def split: sum.splits if_splits)

lemma getFileHashes_fetched:
  "fetchOk r tp d \<Longrightarrow> getFileHashes r d tp ps = Inr (fetched r tp ps d)"
  using getFileHashes_ok [of r d tp ps] by (auto simp: fetched_def)

lemma getFileHashes_failed:
  "\<not> fetchOk r tp d \<Longrightarrow> \<exists>err. getFileHashes r d tp ps = Inl err"
  using getFileHashes_ok [of r d tp ps] by (cases "getFileHashes r d tp ps") auto

lemma fetched_mapIndex:
  "p \<in> set ps \<Longrightarrow> mapIndex (fetched r tp ps d) p = hashAt r tp d p"
  by (auto simp: hashAt_def fetched_def getFileHashes_def mapIndex_def fileHashesLoop_apply
           split: sum.splits if_splits)

lemma examineParents_eq:
  "examineParents r tp cur ds (map U (paths cur)) =
     (map (fetched r tp (paths cur)) (takeWhile (fetchOk r tp) ds)
        @ replicate (length (dropWhile (fetchOk r tp) ds)) Map.empty,
      map (\<lambda>p. U p \<or> (\<exists>d \<in> set (takeWhile (fetchOk r tp) ds).
                          hashAt r tp d p = mapIndex (hashes cur) p)) (paths cur))"
proof (induction ds arbitrary: U)
  case Nil
  show ?case by simp
next
  case (Cons d ds)
  show ?case
  proof (cases "fetchOk r tp d")
    case False
    then obtain err where "getFileHashes r d tp (paths cur) = Inl err"
      using getFileHashes_failed by blast
    with False show ?thesis by (simp add: replicate_append_same)
  next
    case True
    let ?hs = "fetched r tp (paths cur) d"
    let ?U = "\<lambda>p. U p \<or> hashAt r tp d p = mapIndex (hashes cur) p"
    have g: "getFileHashes r d tp (paths cur) = Inr ?hs"
      using True by (rule getFileHashes_fetched)
    have m: "map (\<lambda>(path, u). u \<or> mapIndex ?hs path = mapIndex (hashes cur) path)
               (zip (paths cur) (map U (paths cur))) = map ?U (paths cur)"
      by (simp add: zip_with_map fetched_mapIndex cong: map_cong)
    show ?thesis
      using True by (simp add: g m Cons.IH [of ?U] disj_ac cong: map_cong) 
  qed
qed

lemma recordPaths_remaining:
  "recordPaths c (map (\<lambda>p. (p, U p)) ps) rn rem = (rn', rem') \<Longrightarrow>
     rem' = rem @ filter (\<lambda>p. map_of rn p = None \<and> U p) ps"
proof (induction ps arbitrary: rn rem)
  case Nil
  then show ?case by simp
next
  case (Cons p ps)
  show ?case
  proof (cases "map_of rn p = None \<and> \<not> U p")
    case True
    with Cons.prems have "recordPaths c (map (\<lambda>p. (p, U p)) ps) (AList.update p c rn) rem = (rn', rem')"
      by simp
    from Cons.IH [OF this] True show ?thesis
      by (auto simp: update_conv' intro!: filter_cong)
  next
    case False
    show ?thesis
    proof (cases "map_of rn p = None")
      case True
      with False have u: "U p" by simp
      with True Cons.prems
      have "recordPaths c (map (\<lambda>p. (p, U p)) ps) rn (rem @ [p]) = (rn', rem')"
        by simp
      from Cons.IH [OF this] True u show ?thesis by simp
    next
      case False
      with Cons.prems
      have "recordPaths c (map (\<lambda>p. (p, U p)) ps) rn rem = (rn', rem')"
        by simp
      from Cons.IH [OF this] False show ?thesis by simp
    qed
  qed
qed

lemma recordPaths_map_of:
  "recordPaths c (map (\<lambda>p. (p, U p)) ps) rn rem = (rn', rem') \<Longrightarrow>
     map_of rn' q = (if q \<in> set ps \<and> map_of rn q = None \<and> \<not> U q then Some c else map_of rn q)"
proof (induction ps arbitrary: rn rem)
  case Nil
  then show ?case by simp
next
  case (Cons p ps)
  show ?case
  proof (cases "map_of rn p = None \<and> \<not> U p")
    case True
    with Cons.prems have "recordPaths c (map (\<lambda>p. (p, U p)) ps) (AList.update p c rn) rem = (rn', rem')"
      by simp
    from Cons.IH [OF this] True show ?thesis
      by (auto simp: update_conv')
  next
    case False
    with Cons.prems Cons.IH show ?thesis
      by (auto split: if_splits)
  qed
qed

lemma recordPaths_distinct:
  "recordPaths c pus rn rem = (rn', rem') \<Longrightarrow> distinct (map fst rn)
     \<Longrightarrow> distinct (map fst rn')"
  by (induction c pus rn rem rule: recordPaths.induct)
     (auto simp: distinct_update split: if_splits)

lemma pushParents_member:
  "e \<in> set (pushParents ch pairs rem) \<Longrightarrow>
     (commit e, hashes e) \<in> set pairs \<and> set (paths e) \<subseteq> set rem"
proof (induction pairs arbitrary: rem)
  case Nil
  then show ?case by simp
next
  case (Cons a pairs)
  obtain d h where a: "a = (d, h)" by (cases a)
  from Cons.prems show ?case
    unfolding a by (auto simp: Let_def split: if_splits dest!: Cons.IH)
qed

lemma pushParents_first:
  "e \<in> set (pushParents ch pairs rem) \<Longrightarrow> p \<in> set (paths e) \<Longrightarrow>
     find (\<lambda>(d, h). mapIndex h p = mapIndex ch p) pairs = Some (commit e, hashes e)"
proof (induction pairs arbitrary: rem)
  case Nil
  then show ?case by simp
next
  case (Cons a pairs)
  obtain d h where a: "a = (d, h)" by (cases a)
  let ?new = "filter (\<lambda>path. mapIndex h path \<noteq> mapIndex ch path) rem"
  from Cons.prems(1) consider
      (head) "e = \<lparr>commit = d, paths = filter (\<lambda>path. mapIndex h path = mapIndex ch path) rem, hashes = h\<rparr>"
    | (tail) "e \<in> set (pushParents ch pairs ?new)"
    unfolding a by (auto simp: Let_def split: if_splits)
  then show ?case
  proof cases
    case head
    with Cons.prems(2) show ?thesis unfolding a by simp
  next
    case tail
    from pushParents_member [OF tail] Cons.prems(2) have "mapIndex h p \<noteq> mapIndex ch p"
      by auto
    with Cons.IH [OF tail Cons.prems(2)] show ?thesis unfolding a by simp
  qed
qed

lemma pushParents_reaches:
  "p \<in> set rem \<Longrightarrow> find (\<lambda>(d, h). mapIndex h p = mapIndex ch p) pairs = Some (d, h) \<Longrightarrow>
     \<exists>e \<in> set (pushParents ch pairs rem). commit e = d \<and> hashes e = h \<and> p \<in> set (paths e)"
proof (induction pairs arbitrary: rem)
  case Nil
  then show ?case by simp
next
  case (Cons a pairs)
  obtain d' h' where a: "a = (d', h')" by (cases a)
  show ?case
  proof (cases "mapIndex h' p = mapIndex ch p")
    case True
    with Cons.prems show ?thesis unfolding a by (simp add: Let_def)
  next
    case False
    with Cons.prems have f: "find (\<lambda>(d, h). mapIndex h p = mapIndex ch p) pairs = Some (d, h)"
      and m: "p \<in> set (filter (\<lambda>path. mapIndex h' path \<noteq> mapIndex ch path) rem)"
      unfolding a by simp_all
    from m have ne: "filter (\<lambda>path. mapIndex h' path \<noteq> mapIndex ch path) rem \<noteq> []"
      by (auto simp: filter_empty_conv)
    from Cons.IH [OF m f] show ?thesis
      unfolding a by (simp add: Let_def ne)
  qed
qed

lemma pushParents_nth:
  "i < length (pushParents ch pairs rem) \<Longrightarrow>
     i < length pairs \<and>
     commit (pushParents ch pairs rem ! i) = fst (pairs ! i) \<and>
     hashes (pushParents ch pairs rem ! i) = snd (pairs ! i) \<and>
     paths (pushParents ch pairs rem ! i) =
       filter (\<lambda>p. mapIndex (snd (pairs ! i)) p = mapIndex ch p \<and>
                    (\<forall>j<i. mapIndex (snd (pairs ! j)) p \<noteq> mapIndex ch p)) rem"
proof (induction pairs arbitrary: rem i)
  case Nil
  then show ?case by simp
next
  case (Cons a pairs)
  obtain d h where a: "a = (d, h)" by (cases a)
  show ?case
  proof (cases i)
    case 0
    then show ?thesis unfolding a by (simp add: Let_def)
  next
    case (Suc i')
    let ?new = "filter (\<lambda>path. mapIndex h path \<noteq> mapIndex ch path) rem"
    from Cons.prems Suc have ne: "?new \<noteq> []" and l: "i' < length (pushParents ch pairs ?new)"
      unfolding a by (auto simp: Let_def split: if_splits)
    from Cons.IH [OF l] ne show ?thesis
      unfolding a Suc by (auto simp: Let_def All_less_Suc2 intro!: filter_cong)
  qed
qed

lemma pushParents_length:
  "p \<in> set rem \<Longrightarrow> j < length pairs \<Longrightarrow> \<forall>i<j. mapIndex (snd (pairs ! i)) p \<noteq> mapIndex ch p
     \<Longrightarrow> j < length (pushParents ch pairs rem)"
proof (induction pairs arbitrary: rem j)
  case Nil
  then show ?case by simp
next
  case (Cons a pairs)
  obtain d h where a: "a = (d, h)" by (cases a)
  show ?case
  proof (cases j)
    case 0
    then show ?thesis unfolding a by (simp add: Let_def)
  next
    case (Suc j')
    let ?new = "filter (\<lambda>path. mapIndex h path \<noteq> mapIndex ch path) rem"
    from Cons.prems Suc have h0: "mapIndex h p \<noteq> mapIndex ch p"
      unfolding a by auto
    with Cons.prems(1) have m: "p \<in> set ?new" by simp
    then have ne: "?new \<noteq> []" by (auto simp: filter_empty_conv)
    from Cons.prems Suc have "j' < length pairs"
      and "\<forall>i<j'. mapIndex (snd (pairs ! i)) p \<noteq> mapIndex ch p"
      unfolding a by auto
    from Cons.IH [OF m this] ne show ?thesis
      unfolding a Suc by (simp add: Let_def)
  qed
qed

lemma firstMatch_None:
  "(firstMatch r tp p c h = None) = (\<forall>d \<in> set (examined r tp c). hashAt r tp d p \<noteq> h)"
  by (auto simp: firstMatch_def find_None_iff)

lemma iteration_unfold:
  fixes r :: repo and tp :: string and cur :: commitAndPaths
  assumes "iteration r tp cur rn = (rn', pushed)"
  defines "parents \<equiv> loadParents r (commit cur) [0 ..< NumParents r (commit cur)]"
  defines "phs \<equiv> map (fetched r tp (paths cur)) (examined r tp (commit cur))
        @ replicate (length (dropWhile (fetchOk r tp) parents)) Map.empty"
  defines "U \<equiv> \<lambda>p. firstMatch r tp p (commit cur) (mapIndex (hashes cur) p) \<noteq> None"
  shows "\<exists>rem. recordPaths (commit cur) (map (\<lambda>p. (p, U p)) (paths cur)) rn [] = (rn', rem)
           \<and> pushed = (if rem \<noteq> [] then pushParents (hashes cur) (zip parents phs) rem else [])"
proof -
  have e: "examineParents r tp cur parents (replicate (length (paths cur)) False) =
       (phs, map U (paths cur))"
    using examineParents_eq [of r tp cur parents "\<lambda>p. False"]
    by (simp add: map_replicate_const phs_def U_def firstMatch_None examined_def parents_def)
  obtain rn1 rem where rp: "recordPaths (commit cur) (map (\<lambda>p. (p, U p)) (paths cur)) rn [] = (rn1, rem)"
    by (cases "recordPaths (commit cur) (map (\<lambda>p. (p, U p)) (paths cur)) rn []")
  from assms(1) show ?thesis
    unfolding iteration_def Let_def parents_def [symmetric] e
    by (simp add: zip_with_map rp split: if_splits)
qed

lemma find_pairs:
  fixes r :: repo and tp :: string and cur :: commitAndPaths
  assumes p: "p \<in> set (paths cur)"
  defines "parents \<equiv> loadParents r (commit cur) [0 ..< NumParents r (commit cur)]"
  defines "phs \<equiv> map (fetched r tp (paths cur)) (examined r tp (commit cur))
        @ replicate (length (dropWhile (fetchOk r tp) parents)) Map.empty"
  assumes m: "firstMatch r tp p (commit cur) (mapIndex (hashes cur) p) = Some d"
  shows "find (\<lambda>(d, h). mapIndex h p = mapIndex (hashes cur) p) (zip parents phs)
           = Some (d, fetched r tp (paths cur) d)"
proof -
  let ?ex = "examined r tp (commit cur)"
  let ?rest = "dropWhile (fetchOk r tp) parents"
  let ?Q = "\<lambda>(d, h). mapIndex h p = mapIndex (hashes cur) p"
  have split: "parents = ?ex @ ?rest"
    by (simp add: examined_def parents_def)
  have z: "zip parents phs = map (\<lambda>d. (d, fetched r tp (paths cur) d)) ?ex
             @ zip ?rest (replicate (length ?rest) Map.empty)"
    unfolding phs_def by (subst split) (simp add: zip_with_map)
  have f: "find (?Q \<circ> (\<lambda>d. (d, fetched r tp (paths cur) d))) ?ex = Some d"
    using m p by (simp add: firstMatch_def fetched_mapIndex comp_def)
  show ?thesis
    unfolding z by (simp add: find_append_list find_map_list f)
qed

lemma iteration_map_of:
  assumes "iteration r tp cur rn = (rn', pushed)"
  shows "map_of rn' q =
     (if q \<in> set (paths cur) \<and> map_of rn q = None
          \<and> firstMatch r tp q (commit cur) (mapIndex (hashes cur) q) = None
      then Some (commit cur) else map_of rn q)"
proof -
  from iteration_unfold [OF assms] obtain rem where
    "recordPaths (commit cur)
       (map (\<lambda>p. (p, firstMatch r tp p (commit cur) (mapIndex (hashes cur) p) \<noteq> None)) (paths cur))
       rn [] = (rn', rem)"
    by blast
  from recordPaths_map_of [OF this] show ?thesis by simp
qed

lemma iteration_distinct:
  assumes "iteration r tp cur rn = (rn', pushed)" and "distinct (map fst rn)"
  shows "distinct (map fst rn')"
proof -
  from iteration_unfold [OF assms(1)] obtain rem where
    "recordPaths (commit cur)
       (map (\<lambda>p. (p, firstMatch r tp p (commit cur) (mapIndex (hashes cur) p) \<noteq> None)) (paths cur))
       rn [] = (rn', rem)"
    by blast
  from recordPaths_distinct [OF this assms(2)] show ?thesis .
qed

lemma iteration_pushed:
  assumes it: "iteration r tp cur rn = (rn', pushed)" and e: "e \<in> set pushed"
  shows "commit e \<in> set (loadParents r (commit cur) [0 ..< NumParents r (commit cur)])"
    and "set (paths e) \<subseteq> {p \<in> set (paths cur). map_of rn p = None}"
proof -
  let ?U = "\<lambda>p. firstMatch r tp p (commit cur) (mapIndex (hashes cur) p) \<noteq> None"
  let ?parents = "loadParents r (commit cur) [0 ..< NumParents r (commit cur)]"
  let ?phs = "map (fetched r tp (paths cur)) (examined r tp (commit cur))
        @ replicate (length (dropWhile (fetchOk r tp) ?parents)) Map.empty"
  from iteration_unfold [OF it] obtain rem where
    rp: "recordPaths (commit cur) (map (\<lambda>p. (p, ?U p)) (paths cur)) rn [] = (rn', rem)"
    and pu: "pushed = (if rem \<noteq> [] then pushParents (hashes cur) (zip ?parents ?phs) rem else [])"
    by blast
  from e pu have m: "e \<in> set (pushParents (hashes cur) (zip ?parents ?phs) rem)"
    by (simp split: if_splits)
  from pushParents_member [OF m] have "(commit e, hashes e) \<in> set (zip ?parents ?phs)"
    and sub: "set (paths e) \<subseteq> set rem" by simp_all
  then show "commit e \<in> set ?parents"
    by (auto dest: set_zip_leftD)
  from recordPaths_remaining [OF rp] sub
  show "set (paths e) \<subseteq> {p \<in> set (paths cur). map_of rn p = None}"
    by auto
qed

lemma iteration_pushed_first:
  assumes it: "iteration r tp cur rn = (rn', pushed)" and e: "e \<in> set pushed"
    and p: "p \<in> set (paths e)"
  shows "firstMatch r tp p (commit cur) (mapIndex (hashes cur) p) = Some (commit e)"
    and "mapIndex (hashes e) p = hashAt r tp (commit e) p"
proof -
  let ?U = "\<lambda>p. firstMatch r tp p (commit cur) (mapIndex (hashes cur) p) \<noteq> None"
  let ?parents = "loadParents r (commit cur) [0 ..< NumParents r (commit cur)]"
  let ?phs = "map (fetched r tp (paths cur)) (examined r tp (commit cur))
        @ replicate (length (dropWhile (fetchOk r tp) ?parents)) Map.empty"
  from iteration_unfold [OF it] obtain rem where
    rp: "recordPaths (commit cur) (map (\<lambda>p. (p, ?U p)) (paths cur)) rn [] = (rn', rem)"
    and pu: "pushed = (if rem \<noteq> [] then pushParents (hashes cur) (zip ?parents ?phs) rem else [])"
    by blast
  from e pu have m: "e \<in> set (pushParents (hashes cur) (zip ?parents ?phs) rem)"
    by (simp split: if_splits)
  from pushParents_member [OF m] p have "p \<in> set rem" by auto
  with recordPaths_remaining [OF rp] have pc: "p \<in> set (paths cur)" and u: "?U p"
    by auto
  from u obtain d where d: "firstMatch r tp p (commit cur) (mapIndex (hashes cur) p) = Some d"
    by auto
  from find_pairs [OF pc d] pushParents_first [OF m p]
  have eq: "commit e = d" "hashes e = fetched r tp (paths cur) d"
    by simp_all
  with d show "firstMatch r tp p (commit cur) (mapIndex (hashes cur) p) = Some (commit e)"
    by simp
  from eq pc show "mapIndex (hashes e) p = hashAt r tp (commit e) p"
    by (simp add: fetched_mapIndex)
qed

lemma iteration_continues:
  assumes it: "iteration r tp cur rn = (rn', pushed)" and p: "p \<in> set (paths cur)"
    and n: "map_of rn p = None"
    and d: "firstMatch r tp p (commit cur) (mapIndex (hashes cur) p) = Some d"
  shows "\<exists>e \<in> set pushed. commit e = d \<and> p \<in> set (paths e)"
proof -
  let ?U = "\<lambda>p. firstMatch r tp p (commit cur) (mapIndex (hashes cur) p) \<noteq> None"
  let ?parents = "loadParents r (commit cur) [0 ..< NumParents r (commit cur)]"
  let ?phs = "map (fetched r tp (paths cur)) (examined r tp (commit cur))
        @ replicate (length (dropWhile (fetchOk r tp) ?parents)) Map.empty"
  from iteration_unfold [OF it] obtain rem where
    rp: "recordPaths (commit cur) (map (\<lambda>p. (p, ?U p)) (paths cur)) rn [] = (rn', rem)"
    and pu: "pushed = (if rem \<noteq> [] then pushParents (hashes cur) (zip ?parents ?phs) rem else [])"
    by blast
  from recordPaths_remaining [OF rp] p n d have pr: "p \<in> set rem" by simp
  then have ne: "rem \<noteq> []" by auto
  from pushParents_reaches [OF pr find_pairs [OF p d]] show ?thesis
    unfolding pu by (auto simp: ne)
qed

lemma loadParents_edges:
  "d \<in> set (loadParents r c is) \<Longrightarrow> \<exists>i \<in> set is. ParentNode r c i = Inr d"
  by (induction "is") (auto split: sum.splits)

lemma loadParents_parentEdges:
  "d \<in> set (loadParents r c [0 ..< NumParents r c]) \<Longrightarrow> (d, c) \<in> parentEdges r"
  by (auto simp: parentEdges_def dest!: loadParents_edges)





lemma takeWhile_prefix_nth:
  assumes "\<forall>i\<le>j. P (xs ! i)" and "j < length xs"
  shows "j < length (takeWhile P xs)"
proof -
  from assms have "Suc j \<le> length (takeWhile P xs)"
    by (intro length_takeWhile_less_P_nth) auto
  then show ?thesis by simp
qed

lemma loadParents_prefix:
  "\<forall>k \<in> set ks. \<exists>d. ParentNode r c k = Inr d \<Longrightarrow> ParentNode r c i = Inl e \<Longrightarrow>
     loadParents r c (ks @ i # rest) = map (\<lambda>k. projr (ParentNode r c k)) ks"
  by (induction ks) auto

section \<open>Facts about the traversal\<close>

lemma heapPop_None: "(heapPop sel k h = None) = (h = [])"
  by (simp add: heapPop_def Let_def)

lemma heapPop_Some:
  assumes "heapPop sel k h = Some (cur, h')"
  shows "\<exists>h1 h2. h = h1 @ cur # h2 \<and> h' = h1 @ h2"
proof -
  let ?i = "min (sel k h) (length h - 1)"
  from assms have ne: "h \<noteq> []" and c: "cur = h ! ?i" and h': "h' = take ?i h @ drop (Suc ?i) h"
    by (auto simp: heapPop_def Let_def split: if_splits)
  from ne have "?i < length h" by (cases h) auto
  from id_take_nth_drop [OF this] c h' show ?thesis by blast
qed

lemma traverse_invariant:
  assumes run: "traverse r tp sel k h rn = Some out"
    and init: "I h rn"
    and step: "\<And>cur h1 h2 rn rn' pushed.
        I (h1 @ cur # h2) rn \<Longrightarrow> iteration r tp cur rn = (rn', pushed)
        \<Longrightarrow> I (h1 @ h2 @ pushed) rn'"
  shows "I [] out"
proof -
  have "r' = r \<longrightarrow> tp' = tp \<longrightarrow> I h rn \<longrightarrow> I [] out"
    if "traverse r' tp' sel k h rn = Some out" for r' tp'
    using that
  proof (induction r' tp' sel k h rn out
           rule: traverse.raw_induct [rotated 1, consumes 1, case_names unfold])
    case (unfold trav r' tp' sel k h rn out)
    note IH = unfold(1) and body = unfold(2)
    show ?case
    proof (intro impI)
      assume eq: "r' = r" "tp' = tp" and i: "I h rn"
      show "I [] out"
      proof (cases "heapPop sel k h")
        case None
        with body have "out = rn" by simp
        moreover from None have "h = []" by (simp add: heapPop_None)
        ultimately show ?thesis using i by simp
      next
        case (Some a)
        obtain cur h' where a: "a = (cur, h')" by (cases a)
        obtain rn' pushed where it: "iteration r tp cur rn = (rn', pushed)"
          by (cases "iteration r tp cur rn")
        from Some a heapPop_Some obtain h1 h2 where h: "h = h1 @ cur # h2" "h' = h1 @ h2"
          by blast
        from body Some a it eq
        have "trav r tp sel (Suc k) (h' @ pushed) rn' = Some out"
          by (simp add: foldl_heapPush)
        from IH [OF this] step [OF _ it] i h show ?thesis
          by simp
      qed
    qed
  qed
  with run init show ?thesis by blast
qed

lemma traverse_terminates:
  assumes "wf (parentEdges r)"
  shows "\<exists>out. traverse r tp sel k h rn = Some out"
proof -
  let ?R = "inv_image (mult (parentEdges r)) (\<lambda>h. mset (map commit h))"
  from assms have "wf ?R" by (simp add: wf_mult)
  then show ?thesis
  proof (induction h arbitrary: k rn rule: wf_induct_rule)
    case (less h)
    show ?case
    proof (cases "heapPop sel k h")
      case None
      then show ?thesis by (subst traverse.simps) simp
    next
      case (Some a)
      obtain cur h' where a: "a = (cur, h')" by (cases a)
      obtain rn' pushed where it: "iteration r tp cur rn = (rn', pushed)"
        by (cases "iteration r tp cur rn")
      from Some a heapPop_Some obtain h1 h2 where h: "h = h1 @ cur # h2" "h' = h1 @ h2"
        by blast
      have "\<forall>d \<in># mset (map commit pushed). \<exists>j \<in># {#commit cur#}. (d, j) \<in> parentEdges r"
        using iteration_pushed(1) [OF it] loadParents_parentEdges by auto
      then have "(mset (map commit h') + mset (map commit pushed),
                  mset (map commit h') + {#commit cur#}) \<in> mult (parentEdges r)"
        by (intro one_step_implies_mult) simp_all
      then have "(h' @ pushed, h) \<in> ?R"
        using h by (simp add: ac_simps)
      from less.IH [OF this] obtain out
        where "traverse r tp sel (Suc k) (h' @ pushed) rn' = Some out"
        by blast
      with Some a it show ?thesis
        by (subst traverse.simps) (simp add: foldl_heapPush)
    qed
  qed
qed

lemma traverse_distinct:
  assumes "traverse r tp sel k h rn = Some out" and "distinct (map fst rn)"
  shows "distinct (map fst out)"
  using assms(1)
  by (rule traverse_invariant [where I = "\<lambda>h rn. distinct (map fst rn)"])
     (auto intro: assms(2) iteration_distinct)

lemma traverse_write_once:
  assumes "traverse r tp sel k h rn = Some out" and "map_of rn p = Some n"
  shows "map_of out p = Some n"
  using assms(1)
  by (rule traverse_invariant [where I = "\<lambda>h rn. map_of rn p = Some n"])
     (auto intro: assms(2) simp: iteration_map_of)

lemma traverse_keys:
  assumes run: "traverse r tp sel k h rn = Some out"
    and h: "\<forall>e \<in> set h. set (paths e) \<subseteq> P" and rn: "\<forall>q. map_of rn q \<noteq> None \<longrightarrow> q \<in> P"
  shows "\<forall>q. map_of out q \<noteq> None \<longrightarrow> q \<in> P"
proof -
  let ?I = "\<lambda>(h::heap) rn. (\<forall>e \<in> set h. set (paths e) \<subseteq> P) \<and> (\<forall>q. map_of rn q \<noteq> None \<longrightarrow> q \<in> P)"
  have "?I [] out"
    using run
  proof (rule traverse_invariant [where I = ?I])
    show "?I h rn" using h rn by simp
  next
    fix cur h1 h2 rn rn' pushed
    assume i: "?I (h1 @ cur # h2) rn" and it: "iteration r tp cur rn = (rn', pushed)"
    from i have c: "set (paths cur) \<subseteq> P" by simp
    have "\<forall>e \<in> set pushed. set (paths e) \<subseteq> P"
      using iteration_pushed(2) [OF it] c by blast
    moreover have "\<forall>q. map_of rn' q \<noteq> None \<longrightarrow> q \<in> P"
      using i c by (auto simp: iteration_map_of [OF it] split: if_splits)
    ultimately show "?I (h1 @ h2 @ pushed) rn'"
      using i by auto
  qed
  then show ?thesis by simp
qed

lemma traverse_ancestors:
  assumes run: "traverse r tp sel k h rn = Some out"
    and h: "\<forall>e \<in> set h. (commit e, c) \<in> (parentEdges r)\<^sup>*"
    and rn: "\<forall>q n. map_of rn q = Some n \<longrightarrow> (n, c) \<in> (parentEdges r)\<^sup>*"
  shows "\<forall>q n. map_of out q = Some n \<longrightarrow> (n, c) \<in> (parentEdges r)\<^sup>*"
proof -
  let ?I = "\<lambda>(h::heap) rn. (\<forall>e \<in> set h. (commit e, c) \<in> (parentEdges r)\<^sup>*) \<and>
                   (\<forall>q n. map_of rn q = Some n \<longrightarrow> (n, c) \<in> (parentEdges r)\<^sup>*)"
  have "?I [] out"
    using run
  proof (rule traverse_invariant [where I = ?I])
    show "?I h rn" using h rn by simp
  next
    fix cur h1 h2 rn rn' pushed
    assume i: "?I (h1 @ cur # h2) rn" and it: "iteration r tp cur rn = (rn', pushed)"
    from i have c: "(commit cur, c) \<in> (parentEdges r)\<^sup>*" by simp
    have "\<forall>e \<in> set pushed. (commit e, c) \<in> (parentEdges r)\<^sup>*"
    proof
      fix e assume "e \<in> set pushed"
      from loadParents_parentEdges [OF iteration_pushed(1) [OF it this]] c
      show "(commit e, c) \<in> (parentEdges r)\<^sup>*"
        by (rule converse_rtrancl_into_rtrancl)
    qed
    moreover have "\<forall>q n. map_of rn' q = Some n \<longrightarrow> (n, c) \<in> (parentEdges r)\<^sup>*"
      using i c by (auto simp: iteration_map_of [OF it] split: if_splits)
    ultimately show "?I (h1 @ h2 @ pushed) rn'"
      using i by auto
  qed
  then show ?thesis by simp
qed

lemma traverse_resolves_all:
  assumes run: "traverse r tp sel k h rn = Some out"
    and h: "map_of rn p \<noteq> None \<or> (\<exists>e \<in> set h. p \<in> set (paths e))"
  shows "map_of out p \<noteq> None"
proof -
  let ?I = "\<lambda>(h::heap) rn. map_of rn p \<noteq> None \<or> (\<exists>e \<in> set h. p \<in> set (paths e))"
  have "?I [] out"
    using run
  proof (rule traverse_invariant [where I = ?I])
    show "?I h rn" using h .
  next
    fix cur h1 h2 rn rn' pushed
    assume i: "?I (h1 @ cur # h2) rn" and it: "iteration r tp cur rn = (rn', pushed)"
    show "?I (h1 @ h2 @ pushed) rn'"
    proof (cases "map_of rn p = None \<and> p \<in> set (paths cur)")
      case True
      show ?thesis
      proof (cases "firstMatch r tp p (commit cur) (mapIndex (hashes cur) p)")
        case None
        with True show ?thesis by (simp add: iteration_map_of [OF it])
      next
        case (Some d)
        from iteration_continues [OF it _ _ Some] True show ?thesis by auto
      qed
    next
      case False
      with i show ?thesis by (auto simp: iteration_map_of [OF it])
    qed
  qed
  then show ?thesis by simp
qed

lemma branch_stopD:
  assumes "branch r tp p c e" and "firstMatch r tp p c (hashAt r tp c p) = None"
  shows "c = e"
  using assms by (cases rule: branch.cases) auto

lemma branch_stepD:
  assumes "branch r tp p c e" and "firstMatch r tp p c (hashAt r tp c p) = Some d"
    and "firstMatch r tp p e (hashAt r tp e p) = None"
  shows "branch r tp p d e"
  using assms by (cases rule: branch.cases) auto

lemma traverse_branch_end:
  assumes run: "traverse r tp sel k h rn = Some out"
    and stop: "firstMatch r tp p e (hashAt r tp e p) = None"
    and rn: "\<forall>n. map_of rn p = Some n \<longrightarrow> n = e"
    and h: "\<forall>x \<in> set h. p \<in> set (paths x) \<longrightarrow> map_of rn p = None \<longrightarrow>
              branch r tp p (commit x) e \<and> mapIndex (hashes x) p = hashAt r tp (commit x) p"
  shows "\<forall>n. map_of out p = Some n \<longrightarrow> n = e"
proof -
  let ?I = "\<lambda>(h::heap) rn. (\<forall>n. map_of rn p = Some n \<longrightarrow> n = e) \<and>
      (\<forall>x \<in> set h. p \<in> set (paths x) \<longrightarrow> map_of rn p = None \<longrightarrow>
              branch r tp p (commit x) e \<and> mapIndex (hashes x) p = hashAt r tp (commit x) p)"
  have "?I [] out"
    using run
  proof (rule traverse_invariant [where I = ?I])
    show "?I h rn" using h rn by simp
  next
    fix cur h1 h2 rn rn' pushed
    assume i: "?I (h1 @ cur # h2) rn" and it: "iteration r tp cur rn = (rn', pushed)"
    note mo = iteration_map_of [OF it, of p]
    have a: "\<forall>n. map_of rn' p = Some n \<longrightarrow> n = e"
    proof (intro allI impI)
      fix n assume n: "map_of rn' p = Some n"
      show "n = e"
      proof (cases "map_of rn p")
        case (Some n')
        with n mo i show ?thesis by simp
      next
        case None
        with n mo have pc: "p \<in> set (paths cur)"
          and fm: "firstMatch r tp p (commit cur) (mapIndex (hashes cur) p) = None"
          and nc: "n = commit cur"
          by (auto split: if_splits)
        from i pc None have "branch r tp p (commit cur) e"
          and "mapIndex (hashes cur) p = hashAt r tp (commit cur) p" by simp_all
        with fm branch_stopD nc show ?thesis by metis
      qed
    qed
    have b: "branch r tp p (commit x) e \<and> mapIndex (hashes x) p = hashAt r tp (commit x) p"
      if x: "x \<in> set (h1 @ h2 @ pushed)" and px: "p \<in> set (paths x)"
        and none: "map_of rn' p = None" for x
    proof -
      from none mo have none0: "map_of rn p = None" by (auto split: if_splits)
      show ?thesis
      proof (cases "x \<in> set pushed")
        case False
        with x i px none0 show ?thesis by auto
      next
        case True
        from iteration_pushed_first [OF it True px]
        have fm: "firstMatch r tp p (commit cur) (mapIndex (hashes cur) p) = Some (commit x)"
          and acc: "mapIndex (hashes x) p = hashAt r tp (commit x) p" by simp_all
        from iteration_pushed(2) [OF it True] px have pc: "p \<in> set (paths cur)" by auto
        from i pc none0 have br: "branch r tp p (commit cur) e"
          and ac: "mapIndex (hashes cur) p = hashAt r tp (commit cur) p" by simp_all
        from branch_stepD [OF br _ stop] fm ac acc show ?thesis by simp
      qed
    qed
    from a b show "?I (h1 @ h2 @ pushed) rn'" by blast
  qed
  then show ?thesis by simp
qed

lemma postProcess_result:
  "postProcess r rn res = Inr m \<Longrightarrow> distinct (map fst rn) \<Longrightarrow>
     m p = (case map_of rn p of None \<Rightarrow> res p
            | Some n \<Rightarrow> (case Commit r n of Inl err \<Rightarrow> None | Inr cm \<Rightarrow> Some cm))"
proof (induction rn arbitrary: res)
  case Nil
  then show ?case by simp
next
  case (Cons a rn)
  obtain q n where a: "a = (q, n)" by (cases a)
  from Cons.prems obtain cm where cm: "Commit r n = Inr cm"
    and pp: "postProcess r rn (res(q \<mapsto> cm)) = Inr m"
    unfolding a by (auto split: sum.splits)
  from Cons.prems(2) have d: "distinct (map fst rn)" and q: "map_of rn q = None"
    unfolding a by (auto simp: map_of_eq_None_iff)
  from Cons.IH [OF pp d] cm q show ?case
    unfolding a by (auto split: option.splits)
qed

lemma postProcess_all_ok:
  "postProcess r rn res = Inr m \<Longrightarrow> (q, n) \<in> set rn \<Longrightarrow> \<exists>cm. Commit r n = Inr cm"
  by (induction rn arbitrary: res) (auto split: sum.splits)

lemma postProcess_error:
  "postProcess r rn res = Inl err \<Longrightarrow> \<exists>(q, n) \<in> set rn. Commit r n = Inl err"
  by (induction rn arbitrary: res) (auto split: sum.splits)

lemma getLastCommitForPaths_Inr:
  assumes "getLastCommitForPaths r sel c tp ps = Some (Inr m)"
  shows "\<exists>hs out. getFileHashes r c tp ps = Inr hs \<and>
           traverse r tp sel 0 [\<lparr>commit = c, paths = ps, hashes = hs\<rparr>] [] = Some out \<and>
           postProcess r out Map.empty = Inr m"
  using assms
  by (auto simp: getLastCommitForPaths_def heapPush_def split: sum.splits option.splits)

lemma resolver_run:
  assumes "getLastCommitForPaths r sel c tp ps = Some (Inr m)"
  shows "\<exists>hs out. getFileHashes r c tp ps = Inr hs
    \<and> traverse r tp sel 0 [\<lparr>commit = c, paths = ps, hashes = hs\<rparr>] [] = Some out
    \<and> distinct (map fst out)
    \<and> (\<forall>p. m p = (case map_of out p of None \<Rightarrow> None
                 | Some n \<Rightarrow> (case Commit r n of Inl err \<Rightarrow> None | Inr cm \<Rightarrow> Some cm)))
    \<and> (\<forall>p n. map_of out p = Some n \<longrightarrow> (\<exists>cm. Commit r n = Inr cm))"
proof -
  from getLastCommitForPaths_Inr [OF assms] obtain hs out where
    hs: "getFileHashes r c tp ps = Inr hs"
    and run: "traverse r tp sel 0 [\<lparr>commit = c, paths = ps, hashes = hs\<rparr>] [] = Some out"
    and pp: "postProcess r out Map.empty = Inr m"
    by blast
  from traverse_distinct [OF run] have d: "distinct (map fst out)" by simp
  have ok: "\<exists>cm. Commit r n = Inr cm" if "map_of out p = Some n" for p n
    using postProcess_all_ok [OF pp map_of_SomeD [OF that]] .
  from postProcess_result [OF pp d] have "\<forall>p. m p = (case map_of out p of None \<Rightarrow> None
                 | Some n \<Rightarrow> (case Commit r n of Inl err \<Rightarrow> None | Inr cm \<Rightarrow> Some cm))"
    by simp
  with hs run d ok show ?thesis by blast
qed

lemma resolved_at_branch_end:
  assumes res: "getLastCommitForPaths r sel c tp ps = Some (Inr m)" and p: "p \<in> set ps"
    and br: "branch r tp p c e" and stop: "firstMatch r tp p e (hashAt r tp e p) = None"
  shows "\<exists>cm. Commit r e = Inr cm \<and> m p = Some cm"
proof -
  from resolver_run [OF res] obtain hs out where
    hs: "getFileHashes r c tp ps = Inr hs"
    and run: "traverse r tp sel 0 [\<lparr>commit = c, paths = ps, hashes = hs\<rparr>] [] = Some out"
    and m: "\<forall>p. m p = (case map_of out p of None \<Rightarrow> None
                 | Some n \<Rightarrow> (case Commit r n of Inl err \<Rightarrow> None | Inr cm \<Rightarrow> Some cm))"
    and ok: "\<forall>p n. map_of out p = Some n \<longrightarrow> (\<exists>cm. Commit r n = Inr cm)"
    by blast
  from hs have "hs = fetched r tp ps c" by (simp add: fetched_def)
  with p have acc: "mapIndex hs p = hashAt r tp c p" by (simp add: fetched_mapIndex)
  from traverse_resolves_all [OF run, of p] p obtain n where n: "map_of out p = Some n"
    by auto
  from traverse_branch_end [OF run stop, of ] br acc n have "n = e" by simp
  with n ok [rule_format, of p n] m [rule_format, of p] show ?thesis by auto
qed

lemma error_sources:
  assumes a: "getLastCommitForPaths r sel c treePath ps = Some (Inl err)"
  shows "getFileHashes r c treePath ps = Inl err \<or>
          (\<exists>n. (n, c) \<in> (parentEdges r)\<^sup>* \<and> Commit r n = Inl err)"
proof (cases "getFileHashes r c treePath ps")
  case (Inl e)
  with a show ?thesis by (simp add: getLastCommitForPaths_def)
next
  case (Inr hs)
  with a obtain out where
    run: "traverse r treePath sel 0 [\<lparr>commit = c, paths = ps, hashes = hs\<rparr>] [] = Some out"
    and pp: "postProcess r out Map.empty = Inl err"
    by (auto simp: getLastCommitForPaths_def heapPush_def split: option.splits)
  from postProcess_error [OF pp] obtain q n where qn: "(q, n) \<in> set out" "Commit r n = Inl err"
    by auto
  from traverse_distinct [OF run] have "distinct (map fst out)" by simp
  with qn(1) have "map_of out q = Some n" by simp
  with traverse_ancestors [OF run, of c] have "(n, c) \<in> (parentEdges r)\<^sup>*" by simp
  with qn(2) show ?thesis by blast
qed

lemma resolver_terminates:
  assumes wf: "wf (parentEdges r)"
  shows "\<exists>res. getLastCommitForPaths r sel c treePath ps = Some res"
proof (cases "getFileHashes r c treePath ps")
  case (Inl err)
  then show ?thesis by (simp add: getLastCommitForPaths_def)
next
  case (Inr hs)
  from traverse_terminates [OF wf] obtain out where
    "traverse r treePath sel 0 [\<lparr>commit = c, paths = ps, hashes = hs\<rparr>] [] = Some out"
    by blast
  with Inr show ?thesis by (simp add: getLastCommitForPaths_def heapPush_def)
qed

section \<open>Runs on the example repositories\<close>

lemmas run_defs = getLastCommitForPaths_def traverse.simps heapPop_def heapPush_def
  popLatest_def comparator_def iteration_def getFileHashes_def getCommitTree_def
  mapIndex_def upt_rec

lemmas at_defs = firstMatch_def examined_def fetchOk_def hashAt_def fetched_def
  getFileHashes_def getCommitTree_def mapIndex_def upt_rec

lemma mergeRepo_run:
  "getLastCommitForPaths mergeRepo (popLatest mergeRepo) 3 [] [''a'', ''k'', ''m'']
     = Some (Inr [''m'' \<mapsto> \<lparr>Hash = 3, Message = []\<rparr>, ''a'' \<mapsto> \<lparr>Hash = 2, Message = []\<rparr>,
                  ''k'' \<mapsto> \<lparr>Hash = 1, Message = []\<rparr>])"
  by (simp add: run_defs mergeRepo_def)

lemma mergeRepo_first_iteration:
  "iteration mergeRepo []
     \<lparr>commit = 3, paths = [''a'', ''k'', ''m''], hashes = [''a'' \<mapsto> 7, ''k'' \<mapsto> 4, ''m'' \<mapsto> 9]\<rparr> []
   = ([(''m'', 3)],
      [\<lparr>commit = 1, paths = [''k''], hashes = [''a'' \<mapsto> 5, ''k'' \<mapsto> 4, ''m'' \<mapsto> 5]\<rparr>,
       \<lparr>commit = 2, paths = [''a''], hashes = [''a'' \<mapsto> 7, ''k'' \<mapsto> 4, ''m'' \<mapsto> 7]\<rparr>])"
  by (simp add: run_defs mergeRepo_def)

lemma mergeRepo_parents: "loadParents mergeRepo 3 [0 ..< NumParents mergeRepo 3] = [1, 2]"
  by (simp add: mergeRepo_def upt_rec)

lemma mergeRepo_fetchOk: "fetchOk mergeRepo [] d"
  by (simp add: at_defs mergeRepo_def)

lemma mergeRepo_hashes:
  "hashAt mergeRepo [] 1 ''k'' = 4" "hashAt mergeRepo [] 2 ''k'' = 4"
  "hashAt mergeRepo [] 3 ''m'' = 9" "hashAt mergeRepo [] 1 ''m'' = 5"
  "hashAt mergeRepo [] 2 ''m'' = 7"
  "hashAt mergeRepo [] (Suc 0) ''k'' = 4" "hashAt mergeRepo [] (Suc 0) ''m'' = 5"
  by (simp_all add: at_defs mergeRepo_def)

lemma mergeRepo_edges: "parentEdges mergeRepo = {(1, 3), (2, 3)}"
  by (auto simp: parentEdges_def mergeRepo_def less_Suc_eq numeral_2_eq_2 split: if_splits)

lemma mergeRepo_acyclic: "finite (parentEdges mergeRepo) \<and> acyclic (parentEdges mergeRepo)"
proof
  show "finite (parentEdges mergeRepo)" by (simp add: mergeRepo_edges)
  show "acyclic (parentEdges mergeRepo)"
    by (rule acyclicI_order [where f = "\<lambda>n. 10 - n"]) (auto simp: mergeRepo_edges)
qed

lemma mergeRepo_branch_a: "branch mergeRepo [] ''a'' 3 2"
proof -
  have "firstMatch mergeRepo [] ''a'' 3 (hashAt mergeRepo [] 3 ''a'') = Some 2"
    by (simp add: at_defs mergeRepo_def)
  then show ?thesis using branch_refl by (rule branch_step)
qed

lemma shallowRepo_edges: "parentEdges shallowRepo = {}"
  by (simp add: parentEdges_def shallowRepo_def)

section \<open>Properties of the resolver\<close>

text \<open>
  C1, as stated, fails. Commit 2 of \<open>shallowRepo\<close> announces a parent that does not
  load, and the parent 5 of commit 4 of \<open>brokenRepo\<close> loads but its tree cannot be
  read, so computing the parent's path hashes fails. In both runs the call returns a
  result mapping and no error: the loop over the parents is left at the failing
  fetch and the traversal goes on with what was fetched before.
\<close>

theorem fetch_failure_not_reported:
  "ParentNode shallowRepo 2 0 = Inl ErrStore \<and>
   getLastCommitForPaths shallowRepo (popLatest shallowRepo) 2 [] [''a'']
     = Some (Inr [''a'' \<mapsto> \<lparr>Hash = 2, Message = []\<rparr>]) \<and>
   ParentNode brokenRepo 4 0 = Inr 5 \<and>
   getFileHashes brokenRepo 5 [] [''a''] = Inl ErrStore \<and>
   getLastCommitForPaths brokenRepo (popLatest brokenRepo) 4 [] [''a'']
     = Some (Inr [''a'' \<mapsto> \<lparr>Hash = 4, Message = []\<rparr>])"
  by (simp add: run_defs brokenRepo_def shallowRepo_def)

text \<open>
  C1, amended. A failure to compute the path hashes at the start commit aborts the
  call: it returns that error and no mapping. A parent node that fails to load does
  not abort the call: the parents of the popped commit are loaded in index order up
  to the first one that fails, and the iteration goes on with those; when the
  history is finite and acyclic, the hashes at the start commit are there, and every
  tree and every commit object can be read, the call returns a mapping whatever
  parent nodes fail to load.
\<close>

theorem reported_errors:
  "(getFileHashes r c treePath ps = Inl err
      \<longrightarrow> getLastCommitForPaths r sel c treePath ps = Some (Inl err)) \<and>
   (i < NumParents r c \<and> ParentNode r c i = Inl err \<and> (\<forall>k<i. \<exists>d. ParentNode r c k = Inr d)
      \<longrightarrow> loadParents r c [0 ..< NumParents r c] = map (\<lambda>k. projr (ParentNode r c k)) [0 ..< i]) \<and>
   (finite (parentEdges r) \<and> acyclic (parentEdges r) \<and>
    (\<exists>hs. getFileHashes r c treePath ps = Inr hs) \<and>
    (\<forall>d. fetchOk r treePath d) \<and> (\<forall>n. \<exists>cm. Commit r n = Inr cm)
      \<longrightarrow> (\<exists>m. getLastCommitForPaths r sel c treePath ps = Some (Inr m)))"
proof (intro conjI impI)
  assume "getFileHashes r c treePath ps = Inl err"
  then show "getLastCommitForPaths r sel c treePath ps = Some (Inl err)"
    by (simp add: getLastCommitForPaths_def)
next
  assume a: "i < NumParents r c \<and> ParentNode r c i = Inl err \<and>
    (\<forall>k<i. \<exists>d. ParentNode r c k = Inr d)"
  then have "[0 ..< NumParents r c] = [0 ..< i] @ [i ..< NumParents r c]"
    using upt_add_eq_append [of 0 i "NumParents r c - i"] by simp
  with a have "[0 ..< NumParents r c] = [0 ..< i] @ i # [Suc i ..< NumParents r c]"
    by (simp add: upt_conv_Cons)
  with a loadParents_prefix [of "[0 ..< i]" r c i err "[Suc i ..< NumParents r c]"]
  show "loadParents r c [0 ..< NumParents r c] = map (\<lambda>k. projr (ParentNode r c k)) [0 ..< i]"
    by simp
next
  assume a: "finite (parentEdges r) \<and> acyclic (parentEdges r) \<and>
    (\<exists>hs. getFileHashes r c treePath ps = Inr hs) \<and>
    (\<forall>d. fetchOk r treePath d) \<and> (\<forall>n. \<exists>cm. Commit r n = Inr cm)"
  then have "wf (parentEdges r)" by (simp add: finite_acyclic_wf)
  from resolver_terminates [OF this] obtain res
    where res: "getLastCommitForPaths r sel c treePath ps = Some res"
    by blast
  show "\<exists>m. getLastCommitForPaths r sel c treePath ps = Some (Inr m)"
  proof (cases res)
    case (Inl e)
    with res error_sources [of r sel c treePath ps e] a show ?thesis
      by (metis Inl_Inr_False)
  next
    case (Inr m)
    with res show ?thesis by blast
  qed
qed

theorem reported_errors_witness:
  "getFileHashes brokenRepo 5 [] [''a''] = Inl ErrStore \<and>
   getLastCommitForPaths brokenRepo (popLatest brokenRepo) 5 [] [''a''] = Some (Inl ErrStore) \<and>
   ParentNode shallowRepo 2 0 = Inl ErrStore \<and>
   loadParents shallowRepo 2 [0 ..< NumParents shallowRepo 2] = [] \<and>
   (\<exists>m. getLastCommitForPaths shallowRepo (popLatest shallowRepo) 2 [] [''a''] = Some (Inr m))"
proof -
  have f: "getFileHashes brokenRepo 5 [] [''a''] = Inl ErrStore"
    by (simp add: getFileHashes_def getCommitTree_def brokenRepo_def)
  with reported_errors [of brokenRepo 5 "[]" "[''a'']" ErrStore "popLatest brokenRepo"]
  have g: "getLastCommitForPaths brokenRepo (popLatest brokenRepo) 5 [] [''a''] = Some (Inl ErrStore)"
    by blast
  have p: "ParentNode shallowRepo 2 0 = Inl ErrStore" "0 < NumParents shallowRepo 2"
    by (simp_all add: shallowRepo_def)
  with reported_errors [of shallowRepo 2 "[]" "[''a'']" ErrStore "popLatest shallowRepo" 0]
  have l: "loadParents shallowRepo 2 [0 ..< NumParents shallowRepo 2] = []"
    by simp
  have h: "\<exists>hs. getFileHashes shallowRepo 2 [] [''a''] = Inr hs"
    by (simp add: getFileHashes_def getCommitTree_def shallowRepo_def)
  have ok: "\<forall>d. fetchOk shallowRepo [] d"
    by (simp add: at_defs shallowRepo_def)
  have cm: "\<forall>n. \<exists>cm. Commit shallowRepo n = Inr cm"
    by (simp add: shallowRepo_def)
  have "finite (parentEdges shallowRepo)" "acyclic (parentEdges shallowRepo)"
    by (simp_all add: shallowRepo_edges acyclic_def)
  with h ok cm reported_errors [of shallowRepo 2 "[]" "[''a'']" ErrStore "popLatest shallowRepo" 0]
  have "\<exists>m. getLastCommitForPaths shallowRepo (popLatest shallowRepo) 2 [] [''a''] = Some (Inr m)"
    by blast
  with f g p(1) l show ?thesis by blast
qed

text \<open>
  C2, as stated, fails. The name \<open>zz\<close> does not exist at the root commit 2 of
  \<open>mergeRepo\<close> (its initial hashes are the empty mapping), and the returned mapping
  holds it, attributed to commit 2.
\<close>

theorem absent_path_in_result:
  "getFileHashes mergeRepo 2 [] [''zz''] = Inr Map.empty \<and>
   getLastCommitForPaths mergeRepo (popLatest mergeRepo) 2 [] [''zz'']
     = Some (Inr [''zz'' \<mapsto> \<lparr>Hash = 2, Message = []\<rparr>])"
  by (simp add: run_defs mergeRepo_def)

text \<open>
  C2, amended. The initial entry carries the full list of requested paths: a
  requested path that is absent at the start commit is not dropped, it is carried with
  the zero hash like a path whose entry has that hash. Whenever the call returns a
  mapping, its domain is exactly the set of requested paths.
\<close>

theorem result_domain:
  assumes "getLastCommitForPaths r sel c treePath ps = Some (Inr m)"
  shows "dom m = set ps"
proof -
  from resolver_run [OF assms] obtain hs out where
    run: "traverse r treePath sel 0 [\<lparr>commit = c, paths = ps, hashes = hs\<rparr>] [] = Some out"
    and m: "\<forall>p. m p = (case map_of out p of None \<Rightarrow> None
                 | Some n \<Rightarrow> (case Commit r n of Inl err \<Rightarrow> None | Inr cm \<Rightarrow> Some cm))"
    and ok: "\<forall>p n. map_of out p = Some n \<longrightarrow> (\<exists>cm. Commit r n = Inr cm)"
    by blast
  from traverse_keys [OF run, of "set ps"] have sub: "\<forall>q. map_of out q \<noteq> None \<longrightarrow> q \<in> set ps"
    by simp
  have "map_of out p \<noteq> None" if "p \<in> set ps" for p
    using traverse_resolves_all [OF run, of p] that by simp
  with sub have "map_of out p \<noteq> None \<longleftrightarrow> p \<in> set ps" for p by blast
  moreover have "m p \<noteq> None \<longleftrightarrow> map_of out p \<noteq> None" for p
    using ok [rule_format, of p] by (auto simp: m split: option.splits)
  ultimately show ?thesis by (auto simp: dom_def)
qed

theorem result_domain_witness:
  "getLastCommitForPaths mergeRepo (popLatest mergeRepo) 3 [] [''a'', ''k'', ''m'']
     = Some (Inr [''m'' \<mapsto> \<lparr>Hash = 3, Message = []\<rparr>, ''a'' \<mapsto> \<lparr>Hash = 2, Message = []\<rparr>,
                  ''k'' \<mapsto> \<lparr>Hash = 1, Message = []\<rparr>]) \<and>
   dom [''m'' \<mapsto> \<lparr>Hash = 3, Message = []\<rparr>, ''a'' \<mapsto> \<lparr>Hash = 2, Message = []\<rparr>,
        ''k'' \<mapsto> \<lparr>Hash = (1::hash), Message = []\<rparr>] = set [''a'', ''k'', ''m'']"
  using mergeRepo_run result_domain [OF mergeRepo_run] by blast

text \<open>
  C3. At the merge 3 of \<open>mergeRepo\<close> the file \<open>a\<close> has the hash it has at the second
  parent and not the one it has at the first. The iteration that processes the
  initial entry pushes an entry with an empty path list for the first parent.
\<close>

theorem empty_entry_pushed:
  "getFileHashes mergeRepo 3 [] [''a''] = Inr [''a'' \<mapsto> 7] \<and>
   iteration mergeRepo [] \<lparr>commit = 3, paths = [''a''], hashes = [''a'' \<mapsto> 7]\<rparr> [] =
     ([], [\<lparr>commit = 1, paths = [], hashes = [''a'' \<mapsto> 5]\<rparr>,
           \<lparr>commit = 2, paths = [''a''], hashes = [''a'' \<mapsto> 7]\<rparr>])"
  by (simp add: run_defs mergeRepo_def)

text \<open>
  C4, the root law. Let the history be finite and acyclic, let \<open>p\<close> be a requested
  path, and let the branch that the traversal follows for \<open>p\<close> from the start commit
  (at each commit, to the first parent whose hash for \<open>p\<close> equals the commit's, so
  that the hash is unchanged along it) reach a commit \<open>root\<close> with no parents. Then
  the call returns; a mapping it returns maps \<open>p\<close> to the commit object of \<open>root\<close>, so
  the path is not left out; and it does return a mapping when the hashes at the
  start commit and the commit objects can be read. The theorem does not need \<open>p\<close>
  to be present at the start commit.
\<close>

theorem root_law:
  assumes fin: "finite (parentEdges r)" and acyc: "acyclic (parentEdges r)"
    and p: "p \<in> set ps" and br: "branch r treePath p c root"
    and root: "NumParents r root = 0"
  shows "\<exists>res. getLastCommitForPaths r sel c treePath ps = Some res \<and>
           (\<forall>m. res = Inr m \<longrightarrow> (\<exists>cm. Commit r root = Inr cm \<and> m p = Some cm)) \<and>
           ((\<exists>hs. getFileHashes r c treePath ps = Inr hs) \<and> (\<forall>n. \<exists>cm. Commit r n = Inr cm)
              \<longrightarrow> (\<exists>m. res = Inr m))"
proof -
  from fin acyc have "wf (parentEdges r)" by (rule finite_acyclic_wf)
  from resolver_terminates [OF this] obtain res
    where res: "getLastCommitForPaths r sel c treePath ps = Some res" by blast
  from root have "examined r treePath root = []"
    by (simp add: examined_def)
  then have stop: "firstMatch r treePath p root (hashAt r treePath root p) = None"
    by (simp add: firstMatch_def)
  have a: "\<exists>cm. Commit r root = Inr cm \<and> m p = Some cm" if "res = Inr m" for m
    using resolved_at_branch_end [OF _ p br stop] res that by simp
  have b: "\<exists>m. res = Inr m"
    if ok: "(\<exists>hs. getFileHashes r c treePath ps = Inr hs) \<and> (\<forall>n. \<exists>cm. Commit r n = Inr cm)"
  proof (cases res)
    case (Inl e)
    with res error_sources [of r sel c treePath ps e] ok show ?thesis
      by (metis Inl_Inr_False)
  next
    case (Inr m)
    then show ?thesis by blast
  qed
  from res a b show ?thesis by blast
qed

theorem root_law_witness:
  "finite (parentEdges mergeRepo) \<and> acyclic (parentEdges mergeRepo) \<and>
   branch mergeRepo [] ''a'' 3 2 \<and> NumParents mergeRepo 2 = 0 \<and>
   (\<exists>m cm. getLastCommitForPaths mergeRepo (popLatest mergeRepo) 3 [] [''a'', ''k'', ''m'']
              = Some (Inr m) \<and>
            Commit mergeRepo 2 = Inr cm \<and> m ''a'' = Some cm)"
proof -
  have n: "NumParents mergeRepo 2 = 0" by (simp add: mergeRepo_def)
  have f: "finite (parentEdges mergeRepo)" and a: "acyclic (parentEdges mergeRepo)"
    using mergeRepo_acyclic by simp_all
  have h: "\<exists>hs. getFileHashes mergeRepo 3 [] [''a'', ''k'', ''m''] = Inr hs"
    by (simp add: getFileHashes_def getCommitTree_def mergeRepo_def)
  have cm: "\<forall>n. \<exists>cm. Commit mergeRepo n = Inr cm"
    by (simp add: mergeRepo_def)
  from root_law [OF f a _ mergeRepo_branch_a n, of "[''a'', ''k'', ''m'']" "popLatest mergeRepo"]
  obtain res where
    "getLastCommitForPaths mergeRepo (popLatest mergeRepo) 3 [] [''a'', ''k'', ''m''] = Some res"
    "\<forall>m. res = Inr m \<longrightarrow> (\<exists>cm. Commit mergeRepo 2 = Inr cm \<and> m ''a'' = Some cm)"
    "(\<exists>hs. getFileHashes mergeRepo 3 [] [''a'', ''k'', ''m''] = Inr hs) \<and>
       (\<forall>n. \<exists>cm. Commit mergeRepo n = Inr cm) \<longrightarrow> (\<exists>m. res = Inr m)"
    by auto
  with h cm have "\<exists>m cm. getLastCommitForPaths mergeRepo (popLatest mergeRepo) 3 [] [''a'', ''k'', ''m'']
              = Some (Inr m) \<and> Commit mergeRepo 2 = Inr cm \<and> m ''a'' = Some cm"
    by blast
  with f a mergeRepo_branch_a n show ?thesis by blast
qed




text \<open>
  C6, the first-matching-parent rule. Let \<open>parents\<close> be the parents loaded for the
  popped entry, let \<open>p\<close> be one of its paths not yet in the result map, and let \<open>j\<close> be
  the first position in \<open>parents\<close> whose hash for \<open>p\<close> equals the hash the entry carries
  for \<open>p\<close>, the hashes of the parents up to \<open>j\<close> having been fetched. Then \<open>p\<close> is not
  recorded, the entries pushed are for the parents in their order, and \<open>p\<close> is in
  the path list of the entry pushed for parent \<open>j\<close> and of no other pushed entry,
  whatever the hashes of the later parents are.
\<close>

theorem first_matching_parent:
  assumes it: "iteration r treePath cur rn = (rn', pushed)"
    and par: "parents = loadParents r (commit cur) [0 ..< NumParents r (commit cur)]"
    and p: "p \<in> set (paths cur)" and n: "map_of rn p = None"
    and j: "j < length parents"
    and ok: "\<forall>i\<le>j. fetchOk r treePath (parents ! i)"
    and mj: "hashAt r treePath (parents ! j) p = mapIndex (hashes cur) p"
    and first: "\<forall>i<j. hashAt r treePath (parents ! i) p \<noteq> mapIndex (hashes cur) p"
  shows "map_of rn' p = None \<and> j < length pushed \<and> length pushed \<le> length parents \<and>
         (\<forall>i<length pushed. commit (pushed ! i) = parents ! i \<and>
                             (p \<in> set (paths (pushed ! i))) = (i = j))"
proof -
  let ?ex = "examined r treePath (commit cur)"
  let ?U = "\<lambda>p. firstMatch r treePath p (commit cur) (mapIndex (hashes cur) p) \<noteq> None"
  let ?phs = "map (fetched r treePath (paths cur)) ?ex
        @ replicate (length (dropWhile (fetchOk r treePath) parents)) Map.empty"
  let ?pairs = "zip parents ?phs"
  let ?match = "\<lambda>i. mapIndex (snd (?pairs ! i)) p = mapIndex (hashes cur) p"
  have ex: "?ex = takeWhile (fetchOk r treePath) parents"
    by (simp add: examined_def par)
  from takeWhile_prefix_nth [OF ok j] have jex: "j < length ?ex"
    by (simp add: ex)
  have exn: "?ex ! i = parents ! i" if "i < length ?ex" for i
    using that by (simp add: ex takeWhile_nth)
  have lphs: "length ?phs = length parents"
    by (simp add: ex) (metis length_append takeWhile_dropWhile_id)
  then have lpairs: "length ?pairs = length parents" by simp
  have matchI: "?match i = (hashAt r treePath (parents ! i) p = mapIndex (hashes cur) p)"
    if "i < length ?ex" for i
  proof -
    from that have "i < length parents"
      by (metis ex length_takeWhile_le less_le_trans)
    with that lphs have "snd (?pairs ! i) = fetched r treePath (paths cur) (?ex ! i)"
      by (simp add: nth_append)
    with that p show ?thesis by (simp add: exn fetched_mapIndex)
  qed
  have fm: "firstMatch r treePath p (commit cur) (mapIndex (hashes cur) p) = Some (parents ! j)"
    unfolding firstMatch_def find_Some_iff
    using jex mj first exn by (intro exI [of _ j]) auto
  from iteration_unfold [OF it] obtain rem where
    rp: "recordPaths (commit cur) (map (\<lambda>p. (p, ?U p)) (paths cur)) rn [] = (rn', rem)"
    and pu: "pushed = (if rem \<noteq> [] then pushParents (hashes cur) ?pairs rem else [])"
    unfolding par by blast
  from recordPaths_remaining [OF rp] p n fm have pr: "p \<in> set rem" by simp
  then have "rem \<noteq> []" by auto
  with pu have pu': "pushed = pushParents (hashes cur) ?pairs rem" by simp
  from iteration_map_of [OF it, of p] n fm have none: "map_of rn' p = None" by simp
  have nm: "\<forall>i<j. \<not> ?match i"
    using first jex by (simp add: matchI)
  have mjj: "?match j" using mj jex by (simp add: matchI)
  from pushParents_length [OF pr _ nm] j lpairs have jl: "j < length pushed"
    unfolding pu' by simp
  have each: "commit (pushed ! i) = parents ! i \<and> (p \<in> set (paths (pushed ! i))) = (i = j)"
    and il: "i < length parents"
    if i: "i < length pushed" for i
  proof -
    from pushParents_nth [OF i [unfolded pu']]
    have il': "i < length ?pairs"
      and c: "commit (pushed ! i) = fst (?pairs ! i)"
      and ps: "paths (pushed ! i) =
         filter (\<lambda>p. mapIndex (snd (?pairs ! i)) p = mapIndex (hashes cur) p \<and>
                    (\<forall>j<i. mapIndex (snd (?pairs ! j)) p \<noteq> mapIndex (hashes cur) p)) rem"
      unfolding pu' by simp_all
    from il' lpairs show "i < length parents" by simp
    with lphs c have c': "commit (pushed ! i) = parents ! i" by simp
    have "(p \<in> set (paths (pushed ! i))) = (i = j)"
    proof (cases i j rule: linorder_cases)
      case less
      with nm ps show ?thesis by auto
    next
      case equal
      with nm mjj ps pr show ?thesis by auto
    next
      case greater
      with mjj ps show ?thesis by auto
    qed
    with c' show "commit (pushed ! i) = parents ! i \<and> (p \<in> set (paths (pushed ! i))) = (i = j)"
      by simp
  qed
  have "length pushed \<le> length parents"
  proof (cases pushed rule: rev_cases)
    case Nil
    then show ?thesis by simp
  next
    case (snoc xs x)
    with il [of "length xs"] show ?thesis by simp
  qed
  with none jl each show ?thesis by blast
qed

theorem first_matching_parent_witness:
  "loadParents mergeRepo 3 [0 ..< NumParents mergeRepo 3] = [1, 2] \<and>
   hashAt mergeRepo [] 1 ''k'' = 4 \<and> hashAt mergeRepo [] 2 ''k'' = 4 \<and>
   commit (snd (iteration mergeRepo []
     \<lparr>commit = 3, paths = [''a'', ''k'', ''m''], hashes = [''a'' \<mapsto> 7, ''k'' \<mapsto> 4, ''m'' \<mapsto> 9]\<rparr> []) ! 0) = 1 \<and>
   ''k'' \<in> set (paths (snd (iteration mergeRepo []
     \<lparr>commit = 3, paths = [''a'', ''k'', ''m''], hashes = [''a'' \<mapsto> 7, ''k'' \<mapsto> 4, ''m'' \<mapsto> 9]\<rparr> []) ! 0)) \<and>
   ''k'' \<notin> set (paths (snd (iteration mergeRepo []
     \<lparr>commit = 3, paths = [''a'', ''k'', ''m''], hashes = [''a'' \<mapsto> 7, ''k'' \<mapsto> 4, ''m'' \<mapsto> 9]\<rparr> []) ! 1))"
proof -
  let ?cur = "\<lparr>commit = 3, paths = [''a'', ''k'', ''m''],
               hashes = [''a'' \<mapsto> 7, ''k'' \<mapsto> 4, ''m'' \<mapsto> 9]\<rparr>"
  let ?pushed = "snd (iteration mergeRepo [] ?cur [])"
  have it: "iteration mergeRepo [] ?cur [] = ([(''m'', 3)], ?pushed)"
    by (simp add: mergeRepo_first_iteration)
  have len: "length ?pushed = 2"
    by (simp add: mergeRepo_first_iteration)
  have par: "[1, 2] = loadParents mergeRepo (commit ?cur) [0 ..< NumParents mergeRepo (commit ?cur)]"
    by (simp add: mergeRepo_parents)
  have w: "map_of [(''m'', 3::nat)] ''k'' = None \<and> 0 < length ?pushed \<and> length ?pushed \<le> length [1::nat, 2] \<and>
         (\<forall>i<length ?pushed. commit (?pushed ! i) = [1, 2] ! i \<and>
                             (''k'' \<in> set (paths (?pushed ! i))) = (i = 0))"
    by (rule first_matching_parent [OF it par])
       (simp_all add: mergeRepo_fetchOk mergeRepo_hashes mapIndex_def)
  from w len have "commit (?pushed ! 0) = 1" "''k'' \<in> set (paths (?pushed ! 0))"
    "''k'' \<notin> set (paths (?pushed ! 1))"
    by auto
  with mergeRepo_parents mergeRepo_hashes show ?thesis by simp
qed

text \<open>
  C7. Every commit object in a mapping the call returns is the commit object of a
  commit node reachable from the start commit along parent edges (the start commit
  included).
\<close>

theorem result_is_ancestor:
  assumes "getLastCommitForPaths r sel c treePath ps = Some (Inr m)" and "m p = Some cm"
  shows "\<exists>n. (n, c) \<in> (parentEdges r)\<^sup>* \<and> Commit r n = Inr cm"
proof -
  from resolver_run [OF assms(1)] obtain hs out where
    run: "traverse r treePath sel 0 [\<lparr>commit = c, paths = ps, hashes = hs\<rparr>] [] = Some out"
    and m: "\<forall>p. m p = (case map_of out p of None \<Rightarrow> None
                 | Some n \<Rightarrow> (case Commit r n of Inl err \<Rightarrow> None | Inr cm \<Rightarrow> Some cm))"
    by blast
  from assms(2) m [rule_format, of p] obtain n where n: "map_of out p = Some n" "Commit r n = Inr cm"
    by (auto split: option.splits sum.splits)
  from traverse_ancestors [OF run, of c] n(1) have "(n, c) \<in> (parentEdges r)\<^sup>*"
    by simp
  with n(2) show ?thesis by blast
qed

theorem result_is_ancestor_witness:
  "getLastCommitForPaths mergeRepo (popLatest mergeRepo) 3 [] [''a'', ''k'', ''m'']
     = Some (Inr [''m'' \<mapsto> \<lparr>Hash = 3, Message = []\<rparr>, ''a'' \<mapsto> \<lparr>Hash = 2, Message = []\<rparr>,
                  ''k'' \<mapsto> \<lparr>Hash = 1, Message = []\<rparr>]) \<and>
   (\<exists>n. (n, 3) \<in> (parentEdges mergeRepo)\<^sup>* \<and>
        Commit mergeRepo n = Inr \<lparr>Hash = 2, Message = []\<rparr>)"
  using mergeRepo_run result_is_ancestor [OF mergeRepo_run, of "''a''" "\<lparr>Hash = 2, Message = []\<rparr>"]
  by simp

text \<open>
  C8. When the parent edges of the repository are finitely many and have no cycle,
  the call returns (an error or a mapping): the loop empties the heap after finitely
  many iterations, in whatever order the heap hands out its entries.
\<close>

theorem traversal_terminates:
  assumes "finite (parentEdges r)" and "acyclic (parentEdges r)"
  shows "\<exists>res. getLastCommitForPaths r sel c treePath ps = Some res"
proof -
  from assms have "wf (parentEdges r)" by (rule finite_acyclic_wf)
  then show ?thesis by (rule resolver_terminates)
qed

theorem traversal_terminates_witness:
  "finite (parentEdges mergeRepo) \<and> acyclic (parentEdges mergeRepo) \<and>
   (\<exists>res. getLastCommitForPaths mergeRepo (popLatest mergeRepo) 3 [] [''a'', ''k'', ''m''] = Some res)"
  using mergeRepo_acyclic
    traversal_terminates [of mergeRepo "popLatest mergeRepo" 3 "[]" "[''a'', ''k'', ''m'']"]
  by blast

text \<open>
  C10. Every key of a mapping the call returns is one of the requested paths. A path
  that the result map holds before an iteration is mapped to the same commit after
  it, and so to the same commit when the traversal ends.
\<close>

theorem result_keys_write_once:
  "(getLastCommitForPaths r sel c treePath ps = Some (Inr m) \<longrightarrow> dom m \<subseteq> set ps) \<and>
   (iteration r treePath cur rn = (rn', pushed) \<and> map_of rn p = Some n
      \<longrightarrow> map_of rn' p = Some n) \<and>
   (traverse r treePath sel k h rn = Some out \<and> map_of rn p = Some n
      \<longrightarrow> map_of out p = Some n)"
proof (intro conjI impI)
  assume a: "getLastCommitForPaths r sel c treePath ps = Some (Inr m)"
  from resolver_run [OF a] obtain hs out where
    run: "traverse r treePath sel 0 [\<lparr>commit = c, paths = ps, hashes = hs\<rparr>] [] = Some out"
    and m: "\<forall>p. m p = (case map_of out p of None \<Rightarrow> None
                 | Some n \<Rightarrow> (case Commit r n of Inl err \<Rightarrow> None | Inr cm \<Rightarrow> Some cm))"
    by blast
  from traverse_keys [OF run, of "set ps"] have "\<forall>q. map_of out q \<noteq> None \<longrightarrow> q \<in> set ps"
    by simp
  then show "dom m \<subseteq> set ps"
    by (auto simp: m split: option.splits)
next
  assume "iteration r treePath cur rn = (rn', pushed) \<and> map_of rn p = Some n"
  then have it: "iteration r treePath cur rn = (rn', pushed)" and s: "map_of rn p = Some n"
    by simp_all
  from iteration_map_of [OF it, of p] s show "map_of rn' p = Some n"
    by simp
next
  assume "traverse r treePath sel k h rn = Some out \<and> map_of rn p = Some n"
  then show "map_of out p = Some n"
    using traverse_write_once by blast
qed

theorem result_keys_write_once_witness:
  "dom [''m'' \<mapsto> \<lparr>Hash = 3, Message = []\<rparr>, ''a'' \<mapsto> \<lparr>Hash = 2, Message = []\<rparr>,
        ''k'' \<mapsto> \<lparr>Hash = (1::hash), Message = []\<rparr>] \<subseteq> set [''a'', ''k'', ''m''] \<and>
   iteration mergeRepo [] \<lparr>commit = 2, paths = [''a'', ''m''], hashes = [''a'' \<mapsto> 7, ''m'' \<mapsto> 7]\<rparr>
       [(''m'', 3)] = ([(''m'', 3), (''a'', 2)], []) \<and>
   map_of [(''m'', 3), (''a'', 2::nat)] ''m'' = Some 3 \<and>
   traverse mergeRepo [] (popLatest mergeRepo) 0
       [\<lparr>commit = 2, paths = [''a'', ''m''], hashes = [''a'' \<mapsto> 7, ''m'' \<mapsto> 7]\<rparr>] [(''m'', 3)]
     = Some [(''m'', 3), (''a'', 2)]"
proof -
  let ?e = "\<lparr>commit = 2, paths = [''a'', ''m''], hashes = [''a'' \<mapsto> 7, ''m'' \<mapsto> 7]\<rparr>"
  have it: "iteration mergeRepo [] ?e [(''m'', 3)] = ([(''m'', 3), (''a'', 2)], [])"
    by (simp add: run_defs mergeRepo_def)
  have tr: "traverse mergeRepo [] (popLatest mergeRepo) 0 [?e] [(''m'', 3)]
     = Some [(''m'', 3), (''a'', 2)]"
    by (simp add: run_defs mergeRepo_def)
  have m: "map_of [(''m'', 3::nat)] ''m'' = Some 3" by simp
  note w = result_keys_write_once [of mergeRepo "popLatest mergeRepo" 3 "[]" "[''a'', ''k'', ''m'']"
      "[''m'' \<mapsto> \<lparr>Hash = 3, Message = []\<rparr>, ''a'' \<mapsto> \<lparr>Hash = 2, Message = []\<rparr>,
        ''k'' \<mapsto> \<lparr>Hash = 1, Message = []\<rparr>]" ?e "[(''m'', 3)]" "[(''m'', 3), (''a'', 2)]" "[]"
      "''m''" 3 0 "[?e]" "[(''m'', 3), (''a'', 2)]"]
  from w mergeRepo_run have "dom [''m'' \<mapsto> \<lparr>Hash = 3, Message = []\<rparr>, ''a'' \<mapsto> \<lparr>Hash = 2, Message = []\<rparr>,
        ''k'' \<mapsto> \<lparr>Hash = (1::hash), Message = []\<rparr>] \<subseteq> set [''a'', ''k'', ''m'']"
    by blast
  moreover from w it m have "map_of [(''m'', 3), (''a'', 2::nat)] ''m'' = Some 3"
    by blast
  ultimately show ?thesis using it tr by blast
qed

end
